theory Spec2Isabelle
  imports Main
begin

section \<open>Strings, whitespace and the primitives of the host language\<close>

text \<open>
  A Python \<open>str\<close> is a sequence of Unicode code points, and \<open>len\<close> counts code
  points.  A character is therefore modelled by its code point and a string by the list
  of its code points.
\<close>

type_synonym uchar = nat
type_synonym ustring = "nat list"

text \<open>
  The characters that \<open>str.strip()\<close> removes and that the pattern \<open>\<^verbatim>\<open>\s\<close>\<close>
  matches on a \<open>str\<close>: tab to carriage return, the four separators U+001C..U+001F, the
  space, U+0085, U+00A0, U+1680, U+2000..U+200A, U+2028, U+2029, U+202F, U+205F and the
  full-width space U+3000.
\<close>

definition is_space :: "uchar \<Rightarrow> bool" where
  "is_space c \<longleftrightarrow>
     (9 \<le> c \<and> c \<le> 13) \<or> (28 \<le> c \<and> c \<le> 32) \<or> c = 133 \<or> c = 160 \<or> c = 5760 \<or>
     (8192 \<le> c \<and> c \<le> 8202) \<or> c = 8232 \<or> c = 8233 \<or> c = 8239 \<or> c = 8287 \<or> c = 12288"

text \<open>\<open>text.strip()\<close>: leading and trailing whitespace removed.\<close>

definition py_strip :: "ustring \<Rightarrow> ustring" where
  "py_strip s = rev (dropWhile is_space (rev (dropWhile is_space s)))"

text \<open>
  \<open>_SPACE_SPLIT.split(s)\<close> with \<open>_SPACE_SPLIT = re.compile(r"\s+")\<close>: the pieces
  between the maximal runs of whitespace, in order.  A run at the very start or the very
  end leaves an empty piece there, and the empty string splits into one empty piece.
\<close>

function space_split :: "ustring \<Rightarrow> ustring list" where
  "space_split s =
     (if dropWhile (\<lambda>c. \<not> is_space c) s = [] then [s]
      else takeWhile (\<lambda>c. \<not> is_space c) s #
           space_split (dropWhile is_space (dropWhile (\<lambda>c. \<not> is_space c) s)))"
  by pat_completeness auto
termination
proof (relation "measure length")
  show "wf (measure length)" by simp
next
  fix s :: ustring
  assume ne: "dropWhile (\<lambda>c. \<not> is_space c) s \<noteq> []"
  let ?r = "dropWhile (\<lambda>c. \<not> is_space c) s"
  from ne obtain c r' where r: "?r = c # r'" by (cases ?r) auto
  then have "is_space c" using hd_dropWhile [of "\<lambda>c. \<not> is_space c" s] ne by auto
  then have "dropWhile is_space ?r = dropWhile is_space r'" using r by simp
  then have "length (dropWhile is_space ?r) \<le> length r'"
    by (simp add: length_dropWhile_le)
  also have "length r' < length ?r" using r by simp
  also have "length ?r \<le> length s" by (rule length_dropWhile_le)
  finally show "(dropWhile is_space ?r, s) \<in> measure length" by simp
qed

declare space_split.simps [simp del]

text \<open>\<open>" ".join(buf)\<close>.\<close>

fun join_sp :: "ustring list \<Rightarrow> ustring" where
  "join_sp [] = []"
| "join_sp [w] = w"
| "join_sp (w # v # ws) = w @ 32 # join_sp (v # ws)"

text \<open>\<open>sum(len(x) for x in buf) + max(0, len(buf) - 1)\<close>.\<close>

definition joined_len :: "ustring list \<Rightarrow> int" where
  "joined_len buf = (\<Sum>x\<leftarrow>buf. int (length x)) + max 0 (int (length buf) - 1)"

text \<open>
  The slices \<open>s[:h]\<close> and \<open>s[h:]\<close> for an integer \<open>h\<close>: a negative bound counts from
  the end of the string, and a bound beyond either end is clipped.
\<close>

definition py_prefix :: "int \<Rightarrow> 'a list \<Rightarrow> 'a list" where
  "py_prefix h s = (if 0 \<le> h then take (nat h) s else take (length s - nat (- h)) s)"

definition py_suffix :: "int \<Rightarrow> 'a list \<Rightarrow> 'a list" where
  "py_suffix h s = (if 0 \<le> h then drop (nat h) s else drop (length s - nat (- h)) s)"

section \<open>The chunker \<open>_iter_space_chunks\<close>\<close>

text \<open>
  The exceptions of the model.  Each of them is derived from \<open>Exception\<close>, the class that
  \<open>except Exception\<close> catches; \<open>KeyboardInterrupt\<close>, \<open>SystemExit\<close> and the other exceptions
  outside that class are not part of the model.
\<close>

datatype error = RuntimeError | IndexError | AnalyzerError

text \<open>
  The state of the generator between two statements: the buffer \<open>buf\<close>, the counter
  \<open>cur_len\<close>, and the chunks yielded so far, oldest first.
\<close>

type_synonym chunk_state = "ustring list \<times> int \<times> ustring list"

text \<open>
  The loop \<open>while len(buf[-1]) > hard_max_chars\<close>.  Reading \<open>buf[-1]\<close> of an empty
  buffer raises \<open>IndexError\<close>.  Nothing bounds the number of rounds, so the loop is a
  partial function: \<open>None\<close> is a loop that never ends.
\<close>

partial_function (option) force_split ::
  "int \<Rightarrow> ustring list \<Rightarrow> int \<Rightarrow> ustring list \<Rightarrow> (error + chunk_state) option" where
  "force_split hard_max_chars buf cur_len out =
     (if buf = [] then Some (Inl IndexError)
      else if int (length (last buf)) > hard_max_chars then
        force_split hard_max_chars
          (if py_suffix hard_max_chars (last buf) \<noteq> []
           then butlast buf @ [py_suffix hard_max_chars (last buf)] else butlast buf)
          (joined_len
            (if py_suffix hard_max_chars (last buf) \<noteq> []
             then butlast buf @ [py_suffix hard_max_chars (last buf)] else butlast buf))
          (out @ [py_prefix hard_max_chars (last buf)])
      else Some (Inr (buf, cur_len, out)))"

text \<open>
  The inner \<open>for i, w in enumerate(buf)\<close> of the fail-safe: the longest prefix of the
  buffer whose joined length stays within \<open>hard_max_chars\<close>.
\<close>

fun failsafe_out :: "int \<Rightarrow> nat \<Rightarrow> int \<Rightarrow> ustring list \<Rightarrow> ustring list" where
  "failsafe_out hard_max_chars i tot [] = []"
| "failsafe_out hard_max_chars i tot (w # ws) =
     (if tot + (int (length w) + (if i > 0 then 1 else 0)) > hard_max_chars then []
      else w # failsafe_out hard_max_chars (Suc i)
                 (tot + (int (length w) + (if i > 0 then 1 else 0))) ws)"

text \<open>The block \<open>if cur_len > hard_max_chars: ...\<close>.\<close>

definition failsafe :: "int \<Rightarrow> chunk_state \<Rightarrow> chunk_state" where
  "failsafe hard_max_chars st =
     (case st of (buf, cur_len, out) \<Rightarrow>
        if cur_len > hard_max_chars then
          (let outw = failsafe_out hard_max_chars 0 0 buf in
           if outw \<noteq> [] then
             (drop (length outw) buf, joined_len (drop (length outw) buf), out @ [join_sp outw])
           else (buf, cur_len, out))
        else (buf, cur_len, out))"

text \<open>The first statement of the loop body: flush the buffer or append the word.\<close>

definition add_word :: "int \<Rightarrow> ustring \<Rightarrow> chunk_state \<Rightarrow> chunk_state" where
  "add_word max_chars p st =
     (case st of (buf, cur_len, out) \<Rightarrow>
        (let add_len = (if buf \<noteq> [] then 1 else 0) + int (length p) in
         if cur_len + add_len > max_chars \<and> buf \<noteq> [] then ([p], int (length p), out @ [join_sp buf])
         else (buf @ [p], cur_len + add_len, out)))"

text \<open>One round of \<open>for p in parts\<close> for a non-empty \<open>p\<close>.\<close>

definition chunk_step :: "int \<Rightarrow> int \<Rightarrow> ustring \<Rightarrow> chunk_state \<Rightarrow> (error + chunk_state) option" where
  "chunk_step max_chars hard_max_chars p st =
     (case add_word max_chars p st of (buf, cur_len, out) \<Rightarrow>
        (case force_split hard_max_chars buf cur_len out of
           None \<Rightarrow> None
         | Some (Inl e) \<Rightarrow> Some (Inl e)
         | Some (Inr st') \<Rightarrow> Some (Inr (failsafe hard_max_chars st'))))"

fun chunk_loop :: "int \<Rightarrow> int \<Rightarrow> ustring list \<Rightarrow> chunk_state \<Rightarrow> (error + chunk_state) option" where
  "chunk_loop max_chars hard_max_chars [] st = Some (Inr st)"
| "chunk_loop max_chars hard_max_chars (p # parts) st =
     (if p = [] then chunk_loop max_chars hard_max_chars parts st
      else (case chunk_step max_chars hard_max_chars p st of
              None \<Rightarrow> None
            | Some (Inl e) \<Rightarrow> Some (Inl e)
            | Some (Inr st') \<Rightarrow> chunk_loop max_chars hard_max_chars parts st'))"

text \<open>
  The generator, run to its end: the list of all chunks it yields.  \<open>None\<close> is a
  generator that never finishes, \<open>Some (Inl e)\<close> one that raises.
\<close>

definition iter_space_chunks :: "ustring \<Rightarrow> int \<Rightarrow> int \<Rightarrow> (error + ustring list) option" where
  "iter_space_chunks text max_chars hard_max_chars =
     (if text = [] then Some (Inr [])
      else (case chunk_loop max_chars hard_max_chars (space_split (py_strip text)) ([], 0, []) of
              None \<Rightarrow> None
            | Some (Inl e) \<Rightarrow> Some (Inl e)
            | Some (Inr (buf, cur_len, out)) \<Rightarrow>
                Some (Inr (if buf \<noteq> [] then out @ [join_sp buf] else out))))"

section \<open>The normalizer \<open>_clean_text\<close>\<close>

text \<open>
  \<open>NOISE_CHARS = set("...")\<close>: the ASCII and full-width question mark, exclamation mark
  and parentheses, the corner brackets U+300C and U+300D, the full stop, the hyphen, the
  ellipsis U+2026 and the middle dot U+30FB.
\<close>

definition NOISE_CHARS :: "uchar set" where
  "NOISE_CHARS = {63, 65311, 12300, 12301, 46, 45, 65281, 33, 40, 65288, 41, 65289, 8230, 12539}"

text \<open>
  \<open>unicodedata.normalize("NFKC", s)\<close> belongs to the standard library, not to this
  program: \<open>_clean_text\<close> takes it as the parameter \<open>nfkc\<close>.
\<close>

definition clean_text :: "(ustring \<Rightarrow> ustring) \<Rightarrow> ustring \<Rightarrow> ustring" where
  "clean_text nfkc text =
     (if NOISE_CHARS \<noteq> {} then filter (\<lambda>c. c \<notin> NOISE_CHARS) (nfkc text) else nfkc text)"

text \<open>
  A fragment of NFKC for concrete inputs.  It composes the letter \<open>a\<close> (U+0061) and a
  following combining acute accent (U+0301) into U+00E1 and leaves every other character
  alone.  This is what NFKC does on every string of ASCII characters, and on every string
  over the four characters \<open>a\<close>, full stop, U+0301 and U+00E1; on other strings it is not
  NFKC, and it is used on none.
\<close>

fun nfkc_fragment :: "ustring \<Rightarrow> ustring" where
  "nfkc_fragment (c # d # cs) =
     (if c = 97 \<and> d = 769 then 225 # nfkc_fragment cs else c # nfkc_fragment (d # cs))"
| "nfkc_fragment cs = cs"

section \<open>The token filter and the pipeline \<open>base_tokenize\<close>\<close>

text \<open>
  A morpheme of the analyzer: \<open>surface()\<close>, \<open>dictionary_form()\<close> and
  \<open>part_of_speech()\<close>, a tuple of six strings whose component 0 is the primary tag.
\<close>

record morpheme =
  surface :: ustring
  dictionary_form :: ustring
  part_of_speech :: "ustring \<times> ustring \<times> ustring \<times> ustring \<times> ustring \<times> ustring"

definition pos0 :: "morpheme \<Rightarrow> ustring" where
  "pos0 m = fst (part_of_speech m)"

text \<open>The tags \<open>"\<dots>"\<close> of the source, as code points: verb, adjective, noun, pronoun, adnominal.\<close>

definition POS_VERB :: ustring where "POS_VERB = [21205, 35422]"
definition POS_ADJECTIVE :: ustring where "POS_ADJECTIVE = [24418, 23481, 35422]"
definition POS_NOUN :: ustring where "POS_NOUN = [21517, 35422]"
definition POS_PRONOUN :: ustring where "POS_PRONOUN = [20195, 21517, 35422]"
definition POS_ADNOMINAL :: ustring where "POS_ADNOMINAL = [36899, 20307, 35422]"

definition DEFAULT_KEEP_POS :: "ustring set" where
  "DEFAULT_KEEP_POS = {POS_NOUN, POS_ADJECTIVE, POS_VERB, POS_PRONOUN, POS_ADNOMINAL}"

definition NG_SURFACE :: "ustring set" where
  "NG_SURFACE = {}"

definition normalize_baseform :: "morpheme \<Rightarrow> ustring" where
  "normalize_baseform m =
     (if pos0 m \<in> {POS_VERB, POS_ADJECTIVE} then dictionary_form m else surface m)"

text \<open>
  The body of \<open>for m in tok.tokenize(chunk, split_mode)\<close>: \<open>None\<close> is a \<open>continue\<close>
  or a token that is not appended, \<open>Some surf\<close> is \<open>toks.append(surf)\<close>.
\<close>

definition filter_morpheme :: "ustring set \<Rightarrow> ustring set \<Rightarrow> morpheme \<Rightarrow> ustring option" where
  "filter_morpheme keep_pos ng_words m =
     (if keep_pos \<noteq> {} \<and> pos0 m \<notin> keep_pos then None
      else (let surf = normalize_baseform m in
            if ng_words \<noteq> {} \<and> (surf = [] \<or> surf \<in> ng_words) then None
            else if surf \<noteq> [] then Some surf else None))"

text \<open>
  The arguments \<open>keep_pos\<close> and \<open>ng_words\<close> are a bool, a string or a collection of
  strings.
\<close>

datatype word_arg = ArgBool bool | ArgStr ustring | ArgSeq "ustring list"

definition keep_pos_set :: "word_arg \<Rightarrow> ustring set" where
  "keep_pos_set a =
     (case a of ArgBool b \<Rightarrow> (if b then DEFAULT_KEEP_POS else {})
      | ArgStr s \<Rightarrow> {s}
      | ArgSeq xs \<Rightarrow> set xs)"

definition ng_words_set :: "word_arg \<Rightarrow> ustring set" where
  "ng_words_set a =
     (case a of ArgBool b \<Rightarrow> (if \<not> b then {} else NG_SURFACE)
      | ArgStr s \<Rightarrow> {s}
      | ArgSeq xs \<Rightarrow> set xs)"

text \<open>
  What the loop \<open>for m in tok.tokenize(chunk, split_mode)\<close> gets from the analyzer: the
  morphemes whose round of the loop runs to its end, in order, and the exception that ends
  the loop early, if there is one.  A call of \<open>tokenize\<close> that raises delivers no
  morpheme.  An exception raised later, by the iteration or by \<open>part_of_speech()\<close>,
  \<open>dictionary_form()\<close> or \<open>surface()\<close> of a morpheme (all three are read before the
  \<open>append\<close>), ends the loop after the morphemes before it.
\<close>

datatype split_mode = SplitA | SplitB | SplitC

record analysis =
  delivered :: "morpheme list"
  raised :: "error option"

type_synonym analyzer = "ustring \<Rightarrow> split_mode \<Rightarrow> analysis"

text \<open>The module globals \<open>_TOK\<close> and \<open>_SPLIT_MODE\<close>.\<close>

record globals =
  TOK :: "analyzer option"
  SPLIT_MODE :: "split_mode option"

text \<open>
  \<open>for chunk in _iter_space_chunks(...)\<close>, over the chunks the generator yields, with
  \<open>toks\<close> the list built so far.  An empty chunk is skipped.  The \<open>try\<close> holds the whole
  inner loop and \<open>toks.append\<close> is inside it: when the loop ends by an exception, the
  \<open>except\<close> branch goes on with the next chunk, and the tokens appended before the
  exception stay in \<open>toks\<close>.
\<close>

fun tokenize_chunks ::
  "analyzer \<Rightarrow> split_mode \<Rightarrow> ustring set \<Rightarrow> ustring set \<Rightarrow> ustring list \<Rightarrow> ustring list \<Rightarrow> ustring list" where
  "tokenize_chunks tok split_mode keep_pos ng_words [] toks = toks"
| "tokenize_chunks tok split_mode keep_pos ng_words (chunk # chunks) toks =
     (if chunk = [] then tokenize_chunks tok split_mode keep_pos ng_words chunks toks
      else (case raised (tok chunk split_mode) of
              None \<Rightarrow>
                tokenize_chunks tok split_mode keep_pos ng_words chunks
                  (toks @ List.map_filter (filter_morpheme keep_pos ng_words)
                            (delivered (tok chunk split_mode)))
            | Some e \<Rightarrow>
                tokenize_chunks tok split_mode keep_pos ng_words chunks
                  (toks @ List.map_filter (filter_morpheme keep_pos ng_words)
                            (delivered (tok chunk split_mode)))))"

text \<open>\<open>if tok is None: tok = _TOK\<close>, and the same for \<open>split_mode\<close>.\<close>

definition or_default :: "'a option \<Rightarrow> 'a option \<Rightarrow> 'a option" where
  "or_default arg dflt = (case arg of None \<Rightarrow> dflt | Some x \<Rightarrow> Some x)"

text \<open>
  \<open>base_tokenize\<close>.  \<open>None\<close>: the call never returns; \<open>Some (Inl e)\<close>: it raises
  \<open>e\<close>; \<open>Some (Inr toks)\<close>: it returns \<open>toks\<close>.  The generator is consumed outside the
  \<open>try\<close>, so an exception of the generator leaves \<open>base_tokenize\<close>.
\<close>

definition base_tokenize ::
  "globals \<Rightarrow> (ustring \<Rightarrow> ustring) \<Rightarrow> ustring \<Rightarrow> word_arg \<Rightarrow> word_arg \<Rightarrow> int \<Rightarrow> int \<Rightarrow>
   analyzer option \<Rightarrow> split_mode option \<Rightarrow> (error + ustring list) option" where
  "base_tokenize g nfkc text keep_pos ng_words max_chars_per_chunk hard_max_chars tok split_mode =
     (case or_default tok (TOK g) of
        None \<Rightarrow> Some (Inl RuntimeError)
      | Some tok' \<Rightarrow>
        (case or_default split_mode (SPLIT_MODE g) of
           None \<Rightarrow> Some (Inl RuntimeError)
         | Some split_mode' \<Rightarrow>
           (case iter_space_chunks (clean_text nfkc text) max_chars_per_chunk hard_max_chars of
              None \<Rightarrow> None
            | Some (Inl e) \<Rightarrow> Some (Inl e)
            | Some (Inr chunks) \<Rightarrow>
                Some (Inr (tokenize_chunks tok' split_mode' (keep_pos_set keep_pos)
                             (ng_words_set ng_words) chunks [])))))"

section \<open>Descriptions used by the properties\<close>

text \<open>The words of a text: the non-empty parts the loop of the chunker goes through.\<close>

definition text_words :: "ustring \<Rightarrow> ustring list" where
  "text_words text = filter (\<lambda>p. p \<noteq> []) (space_split (py_strip text))"

text \<open>
  The whitespace-collapsed text, in the words of the specification: leading and trailing
  whitespace removed, and every run of whitespace replaced by one space.
\<close>

function collapse_runs :: "ustring \<Rightarrow> ustring" where
  "collapse_runs [] = []"
| "collapse_runs (c # cs) =
     (if is_space c then 32 # collapse_runs (dropWhile is_space cs) else c # collapse_runs cs)"
  by pat_completeness auto
termination
  by (relation "measure length") (auto simp: length_dropWhile_le less_Suc_eq_le)

definition collapse_ws :: "ustring \<Rightarrow> ustring" where
  "collapse_ws text = collapse_runs (py_strip text)"

text \<open>
  The pieces of a word under a bound \<open>h\<close>: the word itself when it has at most \<open>h\<close>
  characters, otherwise blocks of exactly \<open>h\<close> characters from the left and a last,
  non-empty remainder.
\<close>

function word_pieces :: "nat \<Rightarrow> 'a list \<Rightarrow> 'a list list" where
  "word_pieces h w =
     (if h = 0 \<or> length w \<le> h then [w] else take h w # word_pieces h (drop h w))"
  by pat_completeness auto
termination
  by (relation "measure (\<lambda>(h, w). length w)") auto

declare word_pieces.simps [simp del]

text \<open>
  The accepted tokens of one chunk: those of the morphemes its analysis delivers, in that
  order; none for an empty chunk.
\<close>

definition chunk_tokens ::
  "analyzer \<Rightarrow> split_mode \<Rightarrow> ustring set \<Rightarrow> ustring set \<Rightarrow> ustring \<Rightarrow> ustring list" where
  "chunk_tokens tok split_mode keep_pos ng_words chunk =
     (if chunk = [] then []
      else List.map_filter (filter_morpheme keep_pos ng_words) (delivered (tok chunk split_mode)))"

text \<open>
  Two analyzers for concrete runs.  Both return a chunk other than \<open>bad\<close> as one noun.
  On the chunk \<open>bad\<close> the first raises in the call, and the second delivers the noun and
  raises after it.
\<close>

definition stub_analyzer :: "ustring \<Rightarrow> analyzer" where
  "stub_analyzer bad chunk split_mode =
     (if chunk = bad then \<lparr>delivered = [], raised = Some AnalyzerError\<rparr>
      else \<lparr>delivered = [\<lparr>surface = chunk, dictionary_form = chunk,
                           part_of_speech = (POS_NOUN, [], [], [], [], [])\<rparr>],
            raised = None\<rparr>)"

definition faltering_analyzer :: "ustring \<Rightarrow> analyzer" where
  "faltering_analyzer bad chunk split_mode =
     \<lparr>delivered = [\<lparr>surface = chunk, dictionary_form = chunk,
                       part_of_speech = (POS_NOUN, [], [], [], [], [])\<rparr>],
      raised = (if chunk = bad then Some AnalyzerError else None)\<rparr>"

text \<open>
  The words of the input that no chunk contains as one of its space-separated words.
\<close>

definition fragmented_words :: "ustring \<Rightarrow> ustring list \<Rightarrow> ustring list" where
  "fragmented_words text chunks =
     filter (\<lambda>w. w \<notin> set (concat (map text_words chunks))) (text_words text)"

text \<open>
  Groups of pieces that can be chunks: non-empty groups of non-empty pieces whose
  space-join is within the hard limit.
\<close>

definition good_groups :: "int \<Rightarrow> ustring list list \<Rightarrow> bool" where
  "good_groups hard gs \<longleftrightarrow>
     (\<forall>g\<in>set gs. g \<noteq> [] \<and> (\<forall>w\<in>set g. w \<noteq> []) \<and> joined_len g \<le> hard)"

section \<open>Facts about the primitives\<close>

lemma join_sp_Cons: "ws \<noteq> [] \<Longrightarrow> join_sp (w # ws) = w @ 32 # join_sp ws"
  by (cases ws) simp_all

lemma join_sp_append:
  "xs \<noteq> [] \<Longrightarrow> ys \<noteq> [] \<Longrightarrow> join_sp (xs @ ys) = join_sp xs @ 32 # join_sp ys"
proof (induction xs rule: join_sp.induct)
  case 1
  then show ?case by simp
next
  case (2 w)
  then show ?case by (simp add: join_sp_Cons)
next
  case (3 w v ws)
  then show ?case by simp
qed

lemma joined_len_Nil: "joined_len [] = 0"
  by (simp add: joined_len_def)

lemma joined_len_single: "joined_len [w] = int (length w)"
  by (simp add: joined_len_def)

lemma joined_len_snoc:
  "buf \<noteq> [] \<Longrightarrow> joined_len (buf @ [p]) = joined_len buf + 1 + int (length p)"
  by (cases buf) (auto simp: joined_len_def)

lemma joined_len_nonneg: "0 \<le> joined_len buf"
proof -
  have "0 \<le> (\<Sum>x\<leftarrow>buf. int (length x))" by (rule sum_list_nonneg) auto
  then show ?thesis by (simp add: joined_len_def)
qed

lemma length_join_sp: "int (length (join_sp buf)) = joined_len buf"
proof (induction buf rule: join_sp.induct)
  case 1
  then show ?case by (simp add: joined_len_def)
next
  case (2 w)
  then show ?case by (simp add: joined_len_def)
next
  case (3 w v ws)
  then show ?case by (simp add: joined_len_def)
qed

lemma join_sp_nonempty: "g \<noteq> [] \<Longrightarrow> \<forall>w\<in>set g. w \<noteq> [] \<Longrightarrow> join_sp g \<noteq> []"
  by (cases g rule: join_sp.cases) auto

lemma join_sp_groups:
  "\<forall>g\<in>set gs. g \<noteq> [] \<Longrightarrow> join_sp (map join_sp gs) = join_sp (concat gs)"
proof (induction gs)
  case Nil
  then show ?case by simp
next
  case (Cons g gs)
  show ?case
  proof (cases "gs = []")
    case True
    then show ?thesis by simp
  next
    case False
    with Cons.prems have "concat gs \<noteq> []" by (cases gs) auto
    moreover from Cons.prems have "g \<noteq> []" by simp
    ultimately show ?thesis using Cons False by (simp add: join_sp_Cons join_sp_append)
  qed
qed

lemma word_pieces_short: "length w \<le> h \<Longrightarrow> word_pieces h w = [w]"
  by (subst word_pieces.simps) simp

lemma word_pieces_long:
  "0 < h \<Longrightarrow> h < length w \<Longrightarrow> word_pieces h w = take h w # word_pieces h (drop h w)"
  by (subst word_pieces.simps) simp

lemma word_pieces_nonempty: "word_pieces h w \<noteq> []"
  by (subst word_pieces.simps) simp

lemma concat_word_pieces: "concat (word_pieces h w) = w"
proof (induction "length w" arbitrary: w rule: less_induct)
  case less
  show ?case
  proof (cases "h = 0 \<or> length w \<le> h")
    case True
    then show ?thesis by (subst word_pieces.simps) simp
  next
    case False
    then have wp: "word_pieces h w = take h w # word_pieces h (drop h w)"
      by (intro word_pieces_long) simp_all
    have "length (drop h w) < length w" using False by auto
    from less.hyps [OF this] show ?thesis unfolding wp by simp
  qed
qed

lemma word_pieces_blocks:
  "0 < h \<Longrightarrow> \<forall>x\<in>set (butlast (word_pieces h w)). length x = h"
proof (induction "length w" arbitrary: w rule: less_induct)
  case less
  show ?case
  proof (cases "length w \<le> h")
    case True
    then show ?thesis by (simp add: word_pieces_short)
  next
    case False
    then have wp: "word_pieces h w = take h w # word_pieces h (drop h w)"
      using less.prems by (intro word_pieces_long) simp_all
    have "length (drop h w) < length w" using False less.prems by simp
    from less.hyps [OF this less.prems]
    have "\<forall>x\<in>set (butlast (word_pieces h (drop h w))). length x = h" .
    then show ?thesis unfolding wp using False by (simp add: word_pieces_nonempty)
  qed
qed

lemma word_pieces_last:
  "0 < h \<Longrightarrow> w \<noteq> [] \<Longrightarrow>
   last (word_pieces h w) \<noteq> [] \<and> length (last (word_pieces h w)) \<le> h"
proof (induction "length w" arbitrary: w rule: less_induct)
  case less
  show ?case
  proof (cases "length w \<le> h")
    case True
    with less.prems show ?thesis by (simp add: word_pieces_short)
  next
    case False
    then have wp: "word_pieces h w = take h w # word_pieces h (drop h w)"
      using less.prems by (intro word_pieces_long) simp_all
    have "length (drop h w) < length w" using False less.prems by simp
    moreover have "drop h w \<noteq> []" using False by simp
    ultimately have "last (word_pieces h (drop h w)) \<noteq> [] \<and>
        length (last (word_pieces h (drop h w))) \<le> h"
      using less.hyps less.prems(1) by blast
    then show ?thesis unfolding wp by (simp add: word_pieces_nonempty)
  qed
qed

section \<open>The forced split\<close>

lemma force_split_stop:
  "buf \<noteq> [] \<Longrightarrow> \<not> int (length (last buf)) > hard \<Longrightarrow>
   force_split hard buf c out = Some (Inr (buf, c, out))"
  by (subst force_split.simps) simp

lemma force_split_empty: "force_split hard [] c out = Some (Inl IndexError)"
  by (subst force_split.simps) simp

lemma force_split_rec:
  "buf \<noteq> [] \<Longrightarrow> int (length (last buf)) > hard \<Longrightarrow>
   force_split hard buf c out =
     force_split hard
          (if py_suffix hard (last buf) \<noteq> []
           then butlast buf @ [py_suffix hard (last buf)] else butlast buf)
          (joined_len
            (if py_suffix hard (last buf) \<noteq> []
             then butlast buf @ [py_suffix hard (last buf)] else butlast buf))
          (out @ [py_prefix hard (last buf)])"
  by (subst force_split.simps) simp

lemma py_suffix_nonpos: "h \<le> 0 \<Longrightarrow> s \<noteq> [] \<Longrightarrow> py_suffix h s \<noteq> []"
  by (cases s) (auto simp: py_suffix_def)

lemma force_split_diverges_aux:
  assumes "force_split hard0 buf0 c0 out0 = Some y0"
  shows "\<not> (hard0 \<le> 0 \<and> buf0 \<noteq> [] \<and> last buf0 \<noteq> [])"
proof (rule force_split.raw_induct
    [where P = "\<lambda>h b c' o' y'. \<not> (h \<le> 0 \<and> b \<noteq> [] \<and> last b \<noteq> [])", OF _ assms])
  fix f :: "int \<Rightarrow> ustring list \<Rightarrow> int \<Rightarrow> ustring list \<Rightarrow> (error + chunk_state) option"
  fix hard buf c out y
  assume IH: "\<And>h b c' out' y'. f h b c' out' = Some y' \<Longrightarrow> \<not> (h \<le> 0 \<and> b \<noteq> [] \<and> last b \<noteq> [])"
  assume step: "(if buf = [] then Some (Inl IndexError)
      else if hard < int (length (last buf))
           then f hard
                 (if py_suffix hard (last buf) \<noteq> []
                  then butlast buf @ [py_suffix hard (last buf)]
                  else butlast buf)
                 (joined_len
                   (if py_suffix hard (last buf) \<noteq> []
                    then butlast buf @ [py_suffix hard (last buf)]
                    else butlast buf))
                 (out @ [py_prefix hard (last buf)])
           else Some (Inr (buf, c, out))) = Some y"
  show "\<not> (hard \<le> 0 \<and> buf \<noteq> [] \<and> last buf \<noteq> [])"
  proof
    assume a: "hard \<le> 0 \<and> buf \<noteq> [] \<and> last buf \<noteq> []"
    then have gt: "int (length (last buf)) > hard" by (cases "last buf") auto
    from a have sn: "py_suffix hard (last buf) \<noteq> []" by (simp add: py_suffix_nonpos)
    from step a gt sn have
      "f hard (butlast buf @ [py_suffix hard (last buf)])
         (joined_len (butlast buf @ [py_suffix hard (last buf)]))
         (out @ [py_prefix hard (last buf)]) = Some y" by simp
    from IH [OF this] a sn show False by simp
  qed
qed

lemma force_split_diverges:
  "hard \<le> 0 \<Longrightarrow> buf \<noteq> [] \<Longrightarrow> last buf \<noteq> [] \<Longrightarrow> force_split hard buf c out = None"
  using force_split_diverges_aux [of hard buf c out] by (cases "force_split hard buf c out") auto

lemma force_split_single:
  "0 < hard \<Longrightarrow> p \<noteq> [] \<Longrightarrow>
   force_split hard [p] (int (length p)) out =
     Some (Inr ([last (word_pieces (nat hard) p)],
                int (length (last (word_pieces (nat hard) p))),
                out @ butlast (word_pieces (nat hard) p)))"
proof (induction "length p" arbitrary: p out rule: less_induct)
  case less
  note pos = \<open>0 < hard\<close>
  show ?case
  proof (cases "length p \<le> nat hard")
    case True
    then have "\<not> int (length (last [p])) > hard" using pos by simp
    then have "force_split hard [p] (int (length p)) out = Some (Inr ([p], int (length p), out))"
      by (intro force_split_stop) simp_all
    then show ?thesis using True by (simp add: word_pieces_short)
  next
    case False
    let ?r = "drop (nat hard) p"
    from False pos have gt: "int (length (last [p])) > hard" by simp
    from False have dne: "?r \<noteq> []" by simp
    from pos have suf: "py_suffix hard p = ?r" and pre: "py_prefix hard p = take (nat hard) p"
      by (simp_all add: py_suffix_def py_prefix_def)
    have shorter: "length ?r < length p" using pos less.prems by (cases p) auto
    have "force_split hard [p] (int (length p)) out =
          force_split hard
            (if py_suffix hard (last [p]) \<noteq> []
             then butlast [p] @ [py_suffix hard (last [p])] else butlast [p])
            (joined_len
              (if py_suffix hard (last [p]) \<noteq> []
               then butlast [p] @ [py_suffix hard (last [p])] else butlast [p]))
            (out @ [py_prefix hard (last [p])])"
      using gt by (intro force_split_rec) simp_all
    also have "\<dots> = force_split hard [?r] (int (length ?r)) (out @ [take (nat hard) p])"
      using dne suf pre by (simp add: joined_len_single)
    also have "\<dots> = Some (Inr ([last (word_pieces (nat hard) ?r)],
                int (length (last (word_pieces (nat hard) ?r))),
                (out @ [take (nat hard) p]) @ butlast (word_pieces (nat hard) ?r)))"
      by (rule less.hyps [OF shorter pos dne])
    finally have res: "force_split hard [p] (int (length p)) out =
       Some (Inr ([last (word_pieces (nat hard) ?r)],
                int (length (last (word_pieces (nat hard) ?r))),
                (out @ [take (nat hard) p]) @ butlast (word_pieces (nat hard) ?r)))" .
    have wp: "word_pieces (nat hard) p = take (nat hard) p # word_pieces (nat hard) ?r"
      using False pos by (intro word_pieces_long) simp_all
    show ?thesis unfolding res wp by (simp add: word_pieces_nonempty)
  qed
qed


section \<open>The shape of the chunker's output\<close>

lemma good_groups_Nil: "good_groups hard []"
  by (simp add: good_groups_def)

lemma good_groups_append:
  "good_groups hard (gs @ hs) \<longleftrightarrow> good_groups hard gs \<and> good_groups hard hs"
  by (auto simp: good_groups_def)

lemma good_groups_single:
  "good_groups hard [g] \<longleftrightarrow> g \<noteq> [] \<and> (\<forall>w\<in>set g. w \<noteq> []) \<and> joined_len g \<le> hard"
  by (simp add: good_groups_def)

lemma good_groups_blocks:
  "0 < hard \<Longrightarrow> \<forall>x\<in>set xs. int (length x) = hard \<Longrightarrow> good_groups hard (map (\<lambda>x. [x]) xs)"
  by (auto simp: good_groups_def joined_len_single)

lemma join_singletons: "map join_sp (map (\<lambda>x. [x]) xs) = xs"
  by (induction xs) simp_all

lemma concat_singletons: "concat (map (\<lambda>x. [x]) xs) = xs"
  by (induction xs) simp_all

lemma failsafe_noop: "cur \<le> hard \<Longrightarrow> failsafe hard (buf, cur, out) = (buf, cur, out)"
  by (simp add: failsafe_def)

text \<open>A word that opens a fresh buffer: it is cut into its pieces.\<close>

lemma fresh_word:
  assumes pos: "0 < hard" and p: "p \<noteq> []"
  shows "\<exists>r gs. force_split hard [p] (int (length p)) out =
             Some (Inr ([r], joined_len [r], out @ map join_sp gs)) \<and>
           r \<noteq> [] \<and> joined_len [r] \<le> hard \<and> good_groups hard gs \<and>
           concat gs @ [r] = word_pieces (nat hard) p"
proof -
  let ?ps = "word_pieces (nat hard) p"
  let ?gs = "map (\<lambda>x. [x]) (butlast ?ps)"
  from pos have npos: "0 < nat hard" by simp
  from word_pieces_last [OF npos p]
  have l: "last ?ps \<noteq> []" and l2: "length (last ?ps) \<le> nat hard" by simp_all
  from l2 pos have lh: "joined_len [last ?ps] \<le> hard" unfolding joined_len_single by linarith
  have blocks: "\<forall>x\<in>set (butlast ?ps). int (length x) = hard"
    using word_pieces_blocks [OF npos, of p] pos by auto
  have gg: "good_groups hard ?gs" by (rule good_groups_blocks [OF pos blocks])
  have fs: "force_split hard [p] (int (length p)) out =
        Some (Inr ([last ?ps], joined_len [last ?ps], out @ map join_sp ?gs))"
    unfolding join_singletons joined_len_single by (rule force_split_single [OF pos p])
  have cc: "concat ?gs @ [last ?ps] = ?ps"
    unfolding concat_singletons by (simp add: word_pieces_nonempty)
  from fs l lh gg cc show ?thesis by blast
qed

lemma chunk_step_fresh:
  assumes pos: "0 < hard" and p: "p \<noteq> []"
    and aw: "add_word max_chars p st = ([p], int (length p), out')"
  shows "\<exists>r gs. chunk_step max_chars hard p st =
             Some (Inr ([r], joined_len [r], out' @ map join_sp gs)) \<and>
           r \<noteq> [] \<and> joined_len [r] \<le> hard \<and> good_groups hard gs \<and>
           concat gs @ [r] = word_pieces (nat hard) p"
proof -
  from fresh_word [OF pos p, of out'] obtain r gs where
    fs: "force_split hard [p] (int (length p)) out' =
             Some (Inr ([r], joined_len [r], out' @ map join_sp gs))"
    and rest: "r \<noteq> []" "joined_len [r] \<le> hard" "good_groups hard gs"
      "concat gs @ [r] = word_pieces (nat hard) p" by blast
  have "chunk_step max_chars hard p st = Some (Inr ([r], joined_len [r], out' @ map join_sp gs))"
    unfolding chunk_step_def aw using rest(2) by (simp add: fs failsafe_noop)
  with rest show ?thesis by blast
qed

lemma chunk_step_groups:
  assumes pos: "0 < hard" and le: "max_chars \<le> hard" and p: "p \<noteq> []"
    and cur: "cur = joined_len buf" and bound: "cur \<le> hard" and ne: "\<forall>w\<in>set buf. w \<noteq> []"
  shows "\<exists>buf' gs. chunk_step max_chars hard p (buf, cur, out) =
             Some (Inr (buf', joined_len buf', out @ map join_sp gs)) \<and>
           joined_len buf' \<le> hard \<and> (\<forall>w\<in>set buf'. w \<noteq> []) \<and> good_groups hard gs \<and>
           concat gs @ buf' = buf @ word_pieces (nat hard) p"
proof -
  let ?ps = "word_pieces (nat hard) p"
  consider (first) "buf = []"
    | (flush) "buf \<noteq> []" "cur + (1 + int (length p)) > max_chars"
    | (append) "buf \<noteq> []" "cur + (1 + int (length p)) \<le> max_chars"
    by linarith
  then show ?thesis
  proof cases
    case first
    have aw: "add_word max_chars p (buf, cur, out) = ([p], int (length p), out)"
      using cur first by (simp add: add_word_def joined_len_Nil)
    from chunk_step_fresh [OF pos p aw] obtain r gs where
      st: "chunk_step max_chars hard p (buf, cur, out) =
             Some (Inr ([r], joined_len [r], out @ map join_sp gs))"
      and rest: "r \<noteq> []" "joined_len [r] \<le> hard" "good_groups hard gs"
        "concat gs @ [r] = ?ps" by blast
    have "\<forall>w\<in>set [r]. w \<noteq> []" using rest(1) by simp
    moreover have "concat gs @ [r] = buf @ ?ps" using rest(4) first by simp
    ultimately show ?thesis using st rest(2,3) by blast
  next
    case flush
    have aw: "add_word max_chars p (buf, cur, out) = ([p], int (length p), out @ [join_sp buf])"
      using flush by (simp add: add_word_def)
    from chunk_step_fresh [OF pos p aw] obtain r gs where
      st: "chunk_step max_chars hard p (buf, cur, out) =
             Some (Inr ([r], joined_len [r], (out @ [join_sp buf]) @ map join_sp gs))"
      and rest: "r \<noteq> []" "joined_len [r] \<le> hard" "good_groups hard gs"
        "concat gs @ [r] = ?ps" by blast
    have st': "chunk_step max_chars hard p (buf, cur, out) =
             Some (Inr ([r], joined_len [r], out @ map join_sp (buf # gs)))"
      unfolding st by simp
    have "good_groups hard [buf]"
      using flush(1) ne cur bound by (simp add: good_groups_single)
    with rest(3) have gg: "good_groups hard (buf # gs)"
      using good_groups_append [of hard "[buf]" gs] by simp
    have "\<forall>w\<in>set [r]. w \<noteq> []" using rest(1) by simp
    moreover have "concat (buf # gs) @ [r] = buf @ ?ps" using rest(4) by simp
    ultimately show ?thesis using st' rest(2) gg by blast
  next
    case append
    have aw: "add_word max_chars p (buf, cur, out) = (buf @ [p], cur + (1 + int (length p)), out)"
      using append by (simp add: add_word_def)
    have c0: "0 \<le> cur" using cur joined_len_nonneg by simp
    with append le have plen: "int (length p) \<le> hard" by linarith
    then have short: "?ps = [p]" by (intro word_pieces_short) linarith
    have jl: "joined_len (buf @ [p]) = cur + (1 + int (length p))"
      using append(1) cur by (simp add: joined_len_snoc)
    have jle: "joined_len (buf @ [p]) \<le> hard" using jl append le by linarith
    have fs: "force_split hard (buf @ [p]) (joined_len (buf @ [p])) out =
          Some (Inr (buf @ [p], joined_len (buf @ [p]), out))"
      using plen by (intro force_split_stop) simp_all
    have st: "chunk_step max_chars hard p (buf, cur, out) =
          Some (Inr (buf @ [p], joined_len (buf @ [p]), out @ map join_sp []))"
      unfolding chunk_step_def aw jl [symmetric] using jle by (simp add: fs failsafe_noop)
    have "\<forall>w\<in>set (buf @ [p]). w \<noteq> []" using ne p by simp
    moreover have "concat [] @ (buf @ [p]) = buf @ ?ps" using short by simp
    ultimately show ?thesis using st jle good_groups_Nil [of hard] by blast
  qed
qed


lemma chunk_loop_groups:
  assumes pos: "0 < hard" and le: "max_chars \<le> hard"
  shows "cur = joined_len buf \<Longrightarrow> cur \<le> hard \<Longrightarrow> \<forall>w\<in>set buf. w \<noteq> [] \<Longrightarrow>
         \<exists>buf' gs. chunk_loop max_chars hard parts (buf, cur, out) =
             Some (Inr (buf', joined_len buf', out @ map join_sp gs)) \<and>
           joined_len buf' \<le> hard \<and> (\<forall>w\<in>set buf'. w \<noteq> []) \<and> good_groups hard gs \<and>
           concat gs @ buf' =
             buf @ concat (map (word_pieces (nat hard)) (filter (\<lambda>p. p \<noteq> []) parts))"
proof (induction parts arbitrary: buf cur out)
  case Nil
  have "chunk_loop max_chars hard [] (buf, cur, out) =
          Some (Inr (buf, joined_len buf, out @ map join_sp []))"
    using Nil(1) by simp
  moreover have "concat [] @ buf = buf @ concat (map (word_pieces (nat hard)) (filter (\<lambda>p. p \<noteq> []) []))"
    by simp
  ultimately show ?case using Nil(2,3) good_groups_Nil [of hard] unfolding Nil(1) by blast
next
  case (Cons p parts)
  show ?case
  proof (cases "p = []")
    case True
    from Cons.IH [OF Cons.prems, of out] True show ?thesis by simp
  next
    case False
    from chunk_step_groups [OF pos le False Cons.prems, of out] obtain buf1 gs1 where
      st: "chunk_step max_chars hard p (buf, cur, out) =
             Some (Inr (buf1, joined_len buf1, out @ map join_sp gs1))"
      and r1: "joined_len buf1 \<le> hard" "\<forall>w\<in>set buf1. w \<noteq> []" "good_groups hard gs1"
        "concat gs1 @ buf1 = buf @ word_pieces (nat hard) p" by blast
    from Cons.IH [OF refl r1(1,2), of "out @ map join_sp gs1"] obtain buf2 gs2 where
      lp: "chunk_loop max_chars hard parts (buf1, joined_len buf1, out @ map join_sp gs1) =
             Some (Inr (buf2, joined_len buf2, (out @ map join_sp gs1) @ map join_sp gs2))"
      and r2: "joined_len buf2 \<le> hard" "\<forall>w\<in>set buf2. w \<noteq> []" "good_groups hard gs2"
        "concat gs2 @ buf2 =
           buf1 @ concat (map (word_pieces (nat hard)) (filter (\<lambda>p. p \<noteq> []) parts))" by blast
    have "chunk_loop max_chars hard (p # parts) (buf, cur, out) =
            Some (Inr (buf2, joined_len buf2, out @ map join_sp (gs1 @ gs2)))"
      using False by (simp add: st lp)
    moreover have "good_groups hard (gs1 @ gs2)"
      using r1(3) r2(3) by (simp add: good_groups_append)
    moreover have "concat (gs1 @ gs2) @ buf2 =
        buf @ concat (map (word_pieces (nat hard)) (filter (\<lambda>p. p \<noteq> []) (p # parts)))"
    proof -
      have "concat (gs1 @ gs2) @ buf2 = concat gs1 @ (concat gs2 @ buf2)" by simp
      also have "\<dots> = (concat gs1 @ buf1) @
           concat (map (word_pieces (nat hard)) (filter (\<lambda>p. p \<noteq> []) parts))"
        unfolding r2(4) by simp
      also have "\<dots> = buf @ word_pieces (nat hard) p @
           concat (map (word_pieces (nat hard)) (filter (\<lambda>p. p \<noteq> []) parts))"
        unfolding r1(4) by simp
      finally show ?thesis using False by simp
    qed
    ultimately show ?thesis using r2(1,2) by blast
  qed
qed

lemma chunk_loop_no_words:
  "filter (\<lambda>p. p \<noteq> []) parts = [] \<Longrightarrow> chunk_loop max_chars hard parts st = Some (Inr st)"
  by (induction parts) (auto split: if_splits)

lemma space_split_Nil: "space_split [] = [[]]"
  by (subst space_split.simps) simp

lemma text_words_Nil: "text_words [] = []"
  by (simp add: text_words_def py_strip_def space_split_Nil)

text \<open>
  The shape of the output for a positive hard limit that is not below the soft limit: the
  chunks are the space-joins of consecutive non-empty groups of the pieces of the words.
\<close>

lemma iter_space_chunks_groups:
  assumes pos: "0 < hard" and le: "max_chars \<le> hard"
  shows "\<exists>gs. iter_space_chunks text max_chars hard = Some (Inr (map join_sp gs)) \<and>
           good_groups hard gs \<and>
           concat gs = concat (map (word_pieces (nat hard)) (text_words text))"
proof (cases "text = []")
  case True
  have "iter_space_chunks text max_chars hard = Some (Inr (map join_sp []))"
    using True by (simp add: iter_space_chunks_def)
  moreover have "concat [] = concat (map (word_pieces (nat hard)) (text_words text))"
    using True by (simp add: text_words_Nil)
  ultimately show ?thesis using good_groups_Nil [of hard] by blast
next
  case False
  have j0: "(0::int) = joined_len []" by (simp add: joined_len_Nil)
  have b0: "(0::int) \<le> hard" using pos by simp
  have n0: "\<forall>w\<in>set ([]::ustring list). w \<noteq> []" by simp
  from chunk_loop_groups [OF pos le j0 b0 n0, of "space_split (py_strip text)" "[]"]
  obtain buf gs where
    lp: "chunk_loop max_chars hard (space_split (py_strip text)) ([], 0, []) =
           Some (Inr (buf, joined_len buf, map join_sp gs))"
    and r: "joined_len buf \<le> hard" "\<forall>w\<in>set buf. w \<noteq> []" "good_groups hard gs"
      "concat gs @ buf = concat (map (word_pieces (nat hard)) (text_words text))"
    by (auto simp: text_words_def)
  show ?thesis
  proof (cases "buf = []")
    case True
    have "iter_space_chunks text max_chars hard = Some (Inr (map join_sp gs))"
      using False True by (simp add: iter_space_chunks_def lp)
    then show ?thesis using r(3,4) True by auto
  next
    case nb: False
    have "iter_space_chunks text max_chars hard = Some (Inr (map join_sp (gs @ [buf])))"
      using False nb by (simp add: iter_space_chunks_def lp)
    moreover have "good_groups hard (gs @ [buf])"
      using r(1,2,3) nb by (simp add: good_groups_append good_groups_single)
    moreover have "concat (gs @ [buf]) = concat (map (word_pieces (nat hard)) (text_words text))"
      using r(4) by simp
    ultimately show ?thesis by blast
  qed
qed

section \<open>Evaluating the chunker on concrete texts\<close>

lemma space_split_last:
  "dropWhile (\<lambda>c. \<not> is_space c) s = [] \<Longrightarrow> space_split s = [s]"
  by (subst space_split.simps) simp

lemma space_split_more:
  "dropWhile (\<lambda>c. \<not> is_space c) s \<noteq> [] \<Longrightarrow>
   space_split s = takeWhile (\<lambda>c. \<not> is_space c) s #
           space_split (dropWhile is_space (dropWhile (\<lambda>c. \<not> is_space c) s))"
  apply (subst space_split.simps)
  apply (simp only: if_False)
  done

lemmas chunk_eval = iter_space_chunks_def py_strip_def space_split_last space_split_more
  is_space_def chunk_step_def add_word_def failsafe_def joined_len_def
  force_split_stop force_split_rec py_suffix_def py_prefix_def

section \<open>Length bound of the chunks\<close>

text \<open>
  Claim C2, with a positive hard limit.  For every text and every configuration with
  \<open>0 < hard_max_chars\<close> and \<open>max_chars \<le> hard_max_chars\<close>, the chunker finishes, and
  every chunk it yields is a non-empty string of at most \<open>hard_max_chars\<close> characters.
\<close>

theorem chunks_nonempty_and_bounded:
  assumes "0 < hard_max_chars" and "max_chars \<le> hard_max_chars"
  shows "\<exists>chunks. iter_space_chunks text max_chars hard_max_chars = Some (Inr chunks) \<and>
           (\<forall>c\<in>set chunks. c \<noteq> [] \<and> int (length c) \<le> hard_max_chars)"
proof -
  from iter_space_chunks_groups [OF assms, of "text"] obtain gs where
    res: "iter_space_chunks text max_chars hard_max_chars = Some (Inr (map join_sp gs))"
    and gg: "good_groups hard_max_chars gs" by blast
  have "\<forall>c\<in>set (map join_sp gs). c \<noteq> [] \<and> int (length c) \<le> hard_max_chars"
  proof
    fix c assume "c \<in> set (map join_sp gs)"
    then obtain g where g: "g \<in> set gs" and c: "c = join_sp g" by auto
    from gg g have "g \<noteq> []" "\<forall>w\<in>set g. w \<noteq> []" "joined_len g \<le> hard_max_chars"
      by (auto simp: good_groups_def)
    then show "c \<noteq> [] \<and> int (length c) \<le> hard_max_chars"
      unfolding c by (simp add: join_sp_nonempty length_join_sp)
  qed
  with res show ?thesis by blast
qed

text \<open>
  A text with a leading space, the word \<open>ab\<close>, two tabs, the word \<open>cd\<close>, a space, the
  word \<open>e\<close> and a full-width space, with the limits 5 and 7: the chunks are \<open>"ab cd"\<close> and
  \<open>"e"\<close>.
\<close>

theorem chunks_nonempty_and_bounded_witness:
  "(0::int) < 7 \<and> (5::int) \<le> 7 \<and>
   (\<exists>chunks. iter_space_chunks [32, 97, 98, 9, 9, 99, 100, 32, 101, 12288] 5 7 = Some (Inr chunks) \<and>
      (\<forall>c\<in>set chunks. c \<noteq> [] \<and> int (length c) \<le> 7)) \<and>
   iter_space_chunks [32, 97, 98, 9, 9, 99, 100, 32, 101, 12288] 5 7 =
     Some (Inr [[97, 98, 32, 99, 100], [101]])"
proof -
  have h1: "(0::int) < 7" and h2: "(5::int) \<le> 7" by simp_all
  have ev: "iter_space_chunks [32, 97, 98, 9, 9, 99, 100, 32, 101, 12288] 5 7 =
     Some (Inr [[97, 98, 32, 99, 100], [101]])"
    by (simp add: chunk_eval)
  from chunks_nonempty_and_bounded [OF h1 h2, of "[32, 97, 98, 9, 9, 99, 100, 32, 101, 12288]"]
  show ?thesis using h1 h2 ev by blast
qed

text \<open>
  Without the positive hard limit the claim fails.  With both limits 0, which satisfies
  \<open>max_chars \<le> hard_max_chars\<close>, and the text \<open>"a"\<close>, the word is longer than the hard
  limit, every round of the forced split yields the empty slice \<open>long_piece[:0]\<close> and puts
  the whole word back: the generator yields empty chunks and never finishes.
\<close>

theorem chunks_bounded_zero_limit_counterexample:
  "(0::int) \<le> 0 \<and> iter_space_chunks [97] 0 0 = None \<and>
   iter_space_chunks [97] 0 0 \<noteq> Some (Inr [[97]])"
proof -
  have "iter_space_chunks [97] 0 0 = None"
    by (simp add: iter_space_chunks_def py_strip_def space_split_last is_space_def chunk_step_def
      add_word_def force_split_diverges)
  then show ?thesis by simp
qed

section \<open>Fragmentation of words\<close>

lemma word_pieces_single_iff:
  "0 < h \<Longrightarrow> word_pieces h w = [w] \<longleftrightarrow> length w \<le> h"
proof
  assume h: "0 < h" and eq: "word_pieces h w = [w]"
  show "length w \<le> h"
  proof (rule ccontr)
    assume "\<not> length w \<le> h"
    then have "word_pieces h w = take h w # word_pieces h (drop h w)"
      using h by (intro word_pieces_long) simp_all
    with eq have "take h w = w" by simp
    then have "length (take h w) = length w" by simp
    with \<open>\<not> length w \<le> h\<close> show False by simp
  qed
next
  assume "length w \<le> h"
  then show "word_pieces h w = [w]" by (rule word_pieces_short)
qed

text \<open>
  Claim C5, as the code has it.  For a positive hard limit that is not below the soft
  limit, the output is made of the pieces of the words, in input order: the chunks are
  the space-joins of non-empty groups \<open>gs\<close> of consecutive pieces, each within the hard
  limit (so that a block of \<open>hard_max_chars\<close> characters is a chunk of its own); the
  pieces of a word, put together from left to right, give the word back; and a word is
  left in one piece exactly when it has at most \<open>hard_max_chars\<close> characters.  Every
  longer word is cut, however many there are.
\<close>

theorem words_cut_into_pieces:
  assumes "0 < hard_max_chars" and "max_chars \<le> hard_max_chars"
  shows "\<exists>gs. iter_space_chunks text max_chars hard_max_chars = Some (Inr (map join_sp gs)) \<and>
           (\<forall>g\<in>set gs. g \<noteq> [] \<and> int (length (join_sp g)) \<le> hard_max_chars) \<and>
           concat gs = concat (map (word_pieces (nat hard_max_chars)) (text_words text)) \<and>
           (\<forall>w\<in>set (text_words text).
              concat (word_pieces (nat hard_max_chars) w) = w \<and>
              (word_pieces (nat hard_max_chars) w = [w] \<longleftrightarrow> int (length w) \<le> hard_max_chars))"
proof -
  from iter_space_chunks_groups [OF assms, of "text"] obtain gs where
    res: "iter_space_chunks text max_chars hard_max_chars = Some (Inr (map join_sp gs))"
    and gg: "good_groups hard_max_chars gs"
    and cc: "concat gs = concat (map (word_pieces (nat hard_max_chars)) (text_words text))"
    by blast
  have g: "\<forall>g\<in>set gs. g \<noteq> [] \<and> int (length (join_sp g)) \<le> hard_max_chars"
  proof
    fix g assume "g \<in> set gs"
    with gg have "g \<noteq> []" and "joined_len g \<le> hard_max_chars"
      unfolding good_groups_def by blast+
    then show "g \<noteq> [] \<and> int (length (join_sp g)) \<le> hard_max_chars"
      unfolding length_join_sp by simp
  qed
  from assms(1) have npos: "0 < nat hard_max_chars" by simp
  have w: "\<forall>w\<in>set (text_words text).
              concat (word_pieces (nat hard_max_chars) w) = w \<and>
              (word_pieces (nat hard_max_chars) w = [w] \<longleftrightarrow> int (length w) \<le> hard_max_chars)"
  proof
    fix w :: ustring
    have "(length w \<le> nat hard_max_chars) = (int (length w) \<le> hard_max_chars)"
      using assms(1) by linarith
    then show "concat (word_pieces (nat hard_max_chars) w) = w \<and>
              (word_pieces (nat hard_max_chars) w = [w] \<longleftrightarrow> int (length w) \<le> hard_max_chars)"
      unfolding word_pieces_single_iff [OF npos] concat_word_pieces by simp
  qed
  show ?thesis
    by (rule exI [of _ gs]) (intro conjI res g cc w)
qed

text \<open>The text \<open>"abcde fg"\<close> with both limits 3: the chunks \<open>"abc"\<close>, \<open>"de"\<close>, \<open>"fg"\<close>.\<close>

theorem words_cut_into_pieces_witness:
  "(0::int) < 3 \<and> (3::int) \<le> 3 \<and>
   iter_space_chunks [97, 98, 99, 100, 101, 32, 102, 103] 3 3 =
     Some (Inr [[97, 98, 99], [100, 101], [102, 103]]) \<and>
   (\<exists>gs. iter_space_chunks [97, 98, 99, 100, 101, 32, 102, 103] 3 3 = Some (Inr (map join_sp gs)) \<and>
           (\<forall>g\<in>set gs. g \<noteq> [] \<and> int (length (join_sp g)) \<le> 3) \<and>
           concat gs = concat (map (word_pieces (nat 3)) (text_words [97, 98, 99, 100, 101, 32, 102, 103])) \<and>
           (\<forall>w\<in>set (text_words [97, 98, 99, 100, 101, 32, 102, 103]).
              concat (word_pieces (nat 3) w) = w \<and>
              (word_pieces (nat 3) w = [w] \<longleftrightarrow> int (length w) \<le> 3)))"
proof -
  have h1: "(0::int) < 3" and h2: "(3::int) \<le> 3" by simp_all
  have ev: "iter_space_chunks [97, 98, 99, 100, 101, 32, 102, 103] 3 3 =
     Some (Inr [[97, 98, 99], [100, 101], [102, 103]])"
    by (simp add: chunk_eval)
  from words_cut_into_pieces [OF h1 h2, of "[97, 98, 99, 100, 101, 32, 102, 103]"]
  show ?thesis using h1 h2 ev by blast
qed

text \<open>
  The claim as stated allows one fragmented word at most.  In \<open>"abc def"\<close> with both
  limits 2 each of the two words is longer than the hard limit, and both are cut: the
  chunks are \<open>"ab"\<close>, \<open>"c"\<close>, \<open>"de"\<close>, \<open>"f"\<close>, and neither word is a word of a chunk.
\<close>

theorem two_fragmented_words_counterexample:
  "(2::int) \<le> 2 \<and>
   iter_space_chunks [97, 98, 99, 32, 100, 101, 102] 2 2 =
     Some (Inr [[97, 98], [99], [100, 101], [102]]) \<and>
   fragmented_words [97, 98, 99, 32, 100, 101, 102] [[97, 98], [99], [100, 101], [102]] =
     [[97, 98, 99], [100, 101, 102]] \<and>
   \<not> length (fragmented_words [97, 98, 99, 32, 100, 101, 102]
               [[97, 98], [99], [100, 101], [102]]) \<le> 1"
proof -
  have a: "iter_space_chunks [97, 98, 99, 32, 100, 101, 102] 2 2 =
     Some (Inr [[97, 98], [99], [100, 101], [102]])"
    by (simp add: chunk_eval)
  have b: "fragmented_words [97, 98, 99, 32, 100, 101, 102] [[97, 98], [99], [100, 101], [102]] =
     [[97, 98, 99], [100, 101, 102]]"
    by (simp add: fragmented_words_def text_words_def chunk_eval)
  show ?thesis unfolding b using a by simp
qed

section \<open>A single word at the hard limit\<close>

lemma py_strip_no_space: "\<forall>c\<in>set w. \<not> is_space c \<Longrightarrow> py_strip w = w"
proof -
  assume a: "\<forall>c\<in>set w. \<not> is_space c"
  have d: "\<And>v. \<forall>c\<in>set v. \<not> is_space c \<Longrightarrow> dropWhile is_space v = v"
  proof -
    fix v :: ustring assume "\<forall>c\<in>set v. \<not> is_space c"
    then show "dropWhile is_space v = v" by (cases v) simp_all
  qed
  from a have "\<forall>c\<in>set (rev w). \<not> is_space c" by simp
  from d [OF this] d [OF a] show ?thesis by (simp add: py_strip_def)
qed

lemma single_word_loop:
  assumes "w \<noteq> []" and "\<forall>c\<in>set w. \<not> is_space c"
  shows "iter_space_chunks w max_chars hard =
     (case (case force_split hard [w] (int (length w)) [] of
           None \<Rightarrow> None
         | Some (Inl e) \<Rightarrow> Some (Inl e)
         | Some (Inr st') \<Rightarrow> Some (Inr (failsafe hard st'))) of
              None \<Rightarrow> None
            | Some (Inl e) \<Rightarrow> Some (Inl e)
            | Some (Inr (buf, cur_len, out)) \<Rightarrow>
                Some (Inr (if buf \<noteq> [] then out @ [join_sp buf] else out)))"
proof -
  have sp: "space_split (py_strip w) = [w]"
    using assms(2) by (simp add: py_strip_no_space space_split_last)
  have aw: "add_word max_chars w ([], 0, []) = ([w], int (length w), [])"
    by (simp add: add_word_def)
  show ?thesis using assms(1)
    by (simp add: iter_space_chunks_def sp chunk_step_def aw split: option.split sum.split)
qed

text \<open>
  Claim C6, with a positive hard limit in its second half.  A single word without
  whitespace of exactly \<open>hard_max_chars\<close> characters is the only chunk; one of
  \<open>hard_max_chars + 1\<close> characters gives two chunks, its first \<open>hard_max_chars\<close>
  characters and then its last character, when \<open>0 < hard_max_chars\<close>.  The soft limit
  plays no part.
\<close>

theorem single_word_at_the_hard_limit:
  assumes "w \<noteq> []" and "\<forall>c\<in>set w. \<not> is_space c"
  shows "(int (length w) = hard_max_chars \<longrightarrow>
            iter_space_chunks w max_chars hard_max_chars = Some (Inr [w])) \<and>
         (0 < hard_max_chars \<and> int (length w) = hard_max_chars + 1 \<longrightarrow>
            iter_space_chunks w max_chars hard_max_chars =
              Some (Inr [take (nat hard_max_chars) w, [last w]]))"
proof (intro conjI impI)
  assume len: "int (length w) = hard_max_chars"
  have "force_split hard_max_chars [w] (int (length w)) [] = Some (Inr ([w], int (length w), []))"
    using len by (intro force_split_stop) simp_all
  then show "iter_space_chunks w max_chars hard_max_chars = Some (Inr [w])"
    using len by (simp add: single_word_loop [OF assms] failsafe_noop)
next
  assume a: "0 < hard_max_chars \<and> int (length w) = hard_max_chars + 1"
  let ?h = "nat hard_max_chars"
  from a have lw: "length w = Suc ?h" by linarith
  have "drop ?h (butlast w @ [last w]) = [last w]" using lw by simp
  then have dr: "drop ?h w = [last w]" using assms(1) by simp
  have "word_pieces ?h w = take ?h w # word_pieces ?h (drop ?h w)"
    using a lw by (intro word_pieces_long) simp_all
  also have "word_pieces ?h (drop ?h w) = [[last w]]"
    unfolding dr using a by (intro word_pieces_short) auto
  finally have wp: "word_pieces ?h w = [take ?h w, [last w]]" .
  from a have pos: "0 < hard_max_chars" by simp
  have "force_split hard_max_chars [w] (int (length w)) [] =
          Some (Inr ([[last w]], 1, [take ?h w]))"
    using force_split_single [OF pos assms(1), of "[]"] unfolding wp by simp
  then show "iter_space_chunks w max_chars hard_max_chars = Some (Inr [take ?h w, [last w]])"
    using pos by (simp add: single_word_loop [OF assms] failsafe_noop)
qed

text \<open>The words \<open>"abc"\<close> and \<open>"abcd"\<close> with the hard limit 3 and the soft limit 5.\<close>

theorem single_word_at_the_hard_limit_witness:
  "[97, 98, 99] \<noteq> ([]::ustring) \<and> \<not> is_space 97 \<and> \<not> is_space 98 \<and> \<not> is_space 99 \<and>
   \<not> is_space 100 \<and> int (length [97, 98, 99 :: nat]) = 3 \<and>
   iter_space_chunks [97, 98, 99] 5 3 = Some (Inr [[97, 98, 99]]) \<and>
   (0::int) < 3 \<and> int (length [97, 98, 99, 100 :: nat]) = 3 + 1 \<and>
   iter_space_chunks [97, 98, 99, 100] 5 3 = Some (Inr [[97, 98, 99], [100]])"
proof -
  have s: "\<not> is_space 97" "\<not> is_space 98" "\<not> is_space 99" "\<not> is_space 100"
    by (simp_all add: is_space_def)
  have n3: "[97, 98, 99] \<noteq> ([]::ustring)" and n4: "[97, 98, 99, 100] \<noteq> ([]::ustring)"
    by simp_all
  have a3: "\<forall>c\<in>set [97, 98, 99]. \<not> is_space c"
    and a4: "\<forall>c\<in>set [97, 98, 99, 100]. \<not> is_space c"
    using s by simp_all
  from single_word_at_the_hard_limit [OF n3 a3, of 3 5]
  have r3: "iter_space_chunks [97, 98, 99] 5 3 = Some (Inr [[97, 98, 99]])" by simp
  from single_word_at_the_hard_limit [OF n4 a4, of 3 5]
  have r4: "iter_space_chunks [97, 98, 99, 100] 5 3 = Some (Inr [[97, 98, 99], [100]])" by simp
  from s r3 r4 show ?thesis by simp
qed

text \<open>
  With the hard limit 0 the second half of the claim fails: the word \<open>"x"\<close> has
  \<open>hard_max_chars + 1\<close> characters, and the chunker does not yield the two chunks
  \<open>""\<close> and \<open>"x"\<close>; its forced split never ends.
\<close>

theorem single_word_zero_limit_counterexample:
  "int (length [120 :: nat]) = 0 + 1 \<and> \<not> is_space 120 \<and>
   iter_space_chunks [120] 2000 0 = None \<and>
   iter_space_chunks [120] 2000 0 \<noteq> Some (Inr [take (nat 0) [120], [last [120]]])"
proof -
  have "iter_space_chunks [120] 2000 0 = None"
    by (simp add: iter_space_chunks_def py_strip_def space_split_last is_space_def chunk_step_def
      add_word_def force_split_diverges)
  then show ?thesis by (simp add: is_space_def)
qed

section \<open>The whitespace-collapsed text\<close>

lemma collapse_runs_no_space: "\<forall>c\<in>set w. \<not> is_space c \<Longrightarrow> collapse_runs w = w"
  by (induction w) simp_all

lemma collapse_runs_append:
  "\<forall>c\<in>set w. \<not> is_space c \<Longrightarrow> collapse_runs (w @ r) = w @ collapse_runs r"
  by (induction w) simp_all

lemma last_dropWhile: "dropWhile P xs \<noteq> [] \<Longrightarrow> last (dropWhile P xs) = last xs"
proof -
  assume ne: "dropWhile P xs \<noteq> []"
  have "last (takeWhile P xs @ dropWhile P xs) = last (dropWhile P xs)"
    using ne by (rule last_appendR)
  then show ?thesis by simp
qed

lemma py_strip_ends:
  "py_strip s = [] \<or> (\<not> is_space (hd (py_strip s)) \<and> \<not> is_space (last (py_strip s)))"
proof (cases "py_strip s = []")
  case True
  then show ?thesis by simp
next
  case False
  let ?a = "dropWhile is_space s"
  let ?b = "dropWhile is_space (rev ?a)"
  have ps: "py_strip s = rev ?b" by (simp add: py_strip_def)
  with False have b: "?b \<noteq> []" by simp
  have a: "?a \<noteq> []"
  proof
    assume e: "?a = []"
    have "?b = []" unfolding e by simp
    with b show False by simp
  qed
  from b have "\<not> is_space (hd ?b)" by (rule hd_dropWhile)
  then have l: "\<not> is_space (last (py_strip s))" using b unfolding ps by (simp add: last_rev)
  have "last ?b = last (rev ?a)" using b by (rule last_dropWhile)
  then have "last ?b = hd ?a" using a by (simp add: last_rev)
  moreover from a have "\<not> is_space (hd ?a)" by (rule hd_dropWhile)
  ultimately have "\<not> is_space (hd (py_strip s))" using b unfolding ps by (simp add: hd_rev)
  with l show ?thesis by simp
qed

lemma space_split_first:
  "\<exists>ps. space_split t = takeWhile (\<lambda>c. \<not> is_space c) t # ps"
proof (cases "dropWhile (\<lambda>c. \<not> is_space c) t = []")
  case True
  then have tw: "takeWhile (\<lambda>c. \<not> is_space c) t = t"
    by (simp add: dropWhile_eq_Nil_conv takeWhile_eq_all_conv)
  show ?thesis unfolding tw using space_split_last [OF True] by blast
next
  case False
  from space_split_more [OF False] show ?thesis by blast
qed


lemma takeWhile_first: "t \<noteq> [] \<Longrightarrow> P (hd t) \<Longrightarrow> takeWhile P t \<noteq> []"
  by (cases t) simp_all

lemma collapse_runs_space:
  "is_space c \<Longrightarrow> collapse_runs (c # r) = 32 # collapse_runs (dropWhile is_space (c # r))"
  by simp

lemma join_words_collapse:
  "t = [] \<or> (\<not> is_space (hd t) \<and> \<not> is_space (last t)) \<Longrightarrow>
   join_sp (filter (\<lambda>p. p \<noteq> []) (space_split t)) = collapse_runs t"
proof (induction t rule: space_split.induct)
  case (1 s)
  let ?w = "takeWhile (\<lambda>c. \<not> is_space c) s"
  let ?r = "dropWhile (\<lambda>c. \<not> is_space c) s"
  let ?t = "dropWhile is_space ?r"
  have wns: "\<forall>c\<in>set ?w. \<not> is_space c" by (auto dest: set_takeWhileD)
  show ?case
  proof (cases "?r = []")
    case True
    then have ns: "\<forall>c\<in>set s. \<not> is_space c" by (simp add: dropWhile_eq_Nil_conv)
    have "space_split s = [s]" using True by (rule space_split_last)
    then show ?thesis using ns by (simp add: collapse_runs_no_space)
  next
    case False
    have sne: "s \<noteq> []"
    proof
      assume e: "s = []"
      from False show False unfolding e by simp
    qed
    with 1(2) have ends: "\<not> is_space (hd s)" "\<not> is_space (last s)" by simp_all
    from sne ends(1) have wne: "?w \<noteq> []" by (rule takeWhile_first)
    have hr: "\<not> \<not> is_space (hd ?r)" using False by (rule hd_dropWhile)
    have lr: "last ?r = last s" using False by (rule last_dropWhile)
    have tne: "?t \<noteq> []"
    proof
      assume "?t = []"
      then have "\<forall>x\<in>set ?r. is_space x" by (simp only: dropWhile_eq_Nil_conv)
      moreover have "last ?r \<in> set ?r" using False by (rule last_in_set)
      ultimately have "is_space (last ?r)" by blast
      with lr ends(2) show False by simp
    qed
    have hdt: "\<not> is_space (hd ?t)" using tne by (rule hd_dropWhile)
    have "last ?t = last ?r" using tne by (rule last_dropWhile)
    with lr ends(2) have lt: "\<not> is_space (last ?t)" by simp
    have "?t = [] \<or> (\<not> is_space (hd ?t) \<and> \<not> is_space (last ?t))" using hdt lt by blast
    from 1(1) [OF False this]
    have IH: "join_sp (filter (\<lambda>p. p \<noteq> []) (space_split ?t)) = collapse_runs ?t" .
    have first: "takeWhile (\<lambda>c. \<not> is_space c) ?t \<noteq> []"
      using tne hdt by (rule takeWhile_first)
    from space_split_first [of ?t] obtain ps where
      "space_split ?t = takeWhile (\<lambda>c. \<not> is_space c) ?t # ps" by blast
    with first have wt: "filter (\<lambda>p. p \<noteq> []) (space_split ?t) \<noteq> []" by simp
    have ss: "space_split s = ?w # space_split ?t" using False by (rule space_split_more)
    have "join_sp (filter (\<lambda>p. p \<noteq> []) (space_split s)) =
          join_sp (?w # filter (\<lambda>p. p \<noteq> []) (space_split ?t))"
      unfolding ss using wne by simp
    also have "\<dots> = ?w @ 32 # join_sp (filter (\<lambda>p. p \<noteq> []) (space_split ?t))"
      using wt by (rule join_sp_Cons)
    also have "\<dots> = ?w @ 32 # collapse_runs ?t" unfolding IH ..
    also have "\<dots> = ?w @ collapse_runs ?r"
    proof -
      have "collapse_runs (hd ?r # tl ?r) = 32 # collapse_runs (dropWhile is_space (hd ?r # tl ?r))"
        using hr by (intro collapse_runs_space) simp
      then have "collapse_runs ?r = 32 # collapse_runs ?t"
        unfolding hd_Cons_tl [OF False] .
      then show ?thesis by simp
    qed
    also have "\<dots> = collapse_runs (?w @ ?r)"
      using wns by (rule collapse_runs_append [symmetric])
    also have "?w @ ?r = s" by (rule takeWhile_dropWhile_id)
    finally show ?thesis .
  qed
qed

lemma join_text_words: "join_sp (text_words text) = collapse_ws text"
  unfolding text_words_def collapse_ws_def
  by (rule join_words_collapse) (rule py_strip_ends)

section \<open>Rejoining the chunks\<close>

lemma word_pieces_all_short:
  "\<forall>w\<in>set ws. length w \<le> h \<Longrightarrow> concat (map (word_pieces h) ws) = ws"
  by (induction ws) (simp_all add: word_pieces_short)

lemma text_words_nonempty: "w \<in> set (text_words t) \<Longrightarrow> w \<noteq> []"
  by (simp add: text_words_def)

lemma no_words_no_chunks:
  assumes "text_words t = []"
  shows "iter_space_chunks t max_chars hard = Some (Inr [])"
proof (cases "t = []")
  case True
  then show ?thesis by (simp add: iter_space_chunks_def)
next
  case False
  have "chunk_loop max_chars hard (space_split (py_strip t)) ([], 0, []) = Some (Inr ([], 0, []))"
    using assms unfolding text_words_def by (rule chunk_loop_no_words)
  then show ?thesis using False by (simp add: iter_space_chunks_def)
qed

lemma whitespace_no_words:
  assumes "\<forall>c\<in>set t. is_space c"
  shows "text_words t = []"
proof -
  have d: "dropWhile is_space t = []" using assms unfolding dropWhile_eq_Nil_conv .
  have "py_strip t = []" unfolding py_strip_def d by simp
  then show ?thesis by (simp add: text_words_def space_split_Nil)
qed

text \<open>
  Claim C1, for texts without over-long words.  When \<open>max_chars \<le> hard_max_chars\<close> and
  no word of the text has more than \<open>hard_max_chars\<close> characters, the chunker finishes
  and its chunks, joined with single spaces in output order, are exactly the
  whitespace-collapsed text.
\<close>

theorem chunks_rejoin_to_collapsed_text:
  assumes "max_chars \<le> hard_max_chars"
    and "\<forall>w\<in>set (text_words text). int (length w) \<le> hard_max_chars"
  shows "\<exists>chunks. iter_space_chunks text max_chars hard_max_chars = Some (Inr chunks) \<and>
           join_sp chunks = collapse_ws text"
proof (cases "text_words text = []")
  case True
  have "iter_space_chunks text max_chars hard_max_chars = Some (Inr [])"
    using True by (rule no_words_no_chunks)
  moreover have "join_sp [] = collapse_ws text"
    using join_text_words [of "text"] True by simp
  ultimately show ?thesis by blast
next
  case False
  then obtain w where w: "w \<in> set (text_words text)" by (cases "text_words text") auto
  then have "w \<noteq> []" by (rule text_words_nonempty)
  then have "0 < int (length w)" by simp
  moreover from assms(2) w have "int (length w) \<le> hard_max_chars" by blast
  ultimately have pos: "0 < hard_max_chars" by linarith
  from iter_space_chunks_groups [OF pos assms(1), of "text"] obtain gs where
    res: "iter_space_chunks text max_chars hard_max_chars = Some (Inr (map join_sp gs))"
    and gg: "good_groups hard_max_chars gs"
    and cc: "concat gs = concat (map (word_pieces (nat hard_max_chars)) (text_words text))"
    by blast
  have "\<forall>w\<in>set (text_words text). length w \<le> nat hard_max_chars"
    using assms(2) by auto
  then have "concat (map (word_pieces (nat hard_max_chars)) (text_words text)) = text_words text"
    by (rule word_pieces_all_short)
  with cc have cw: "concat gs = text_words text" by simp
  from gg have "\<forall>g\<in>set gs. g \<noteq> []" unfolding good_groups_def by blast
  then have "join_sp (map join_sp gs) = join_sp (concat gs)" by (rule join_sp_groups)
  also have "\<dots> = collapse_ws text" unfolding cw by (rule join_text_words)
  finally show ?thesis using res by blast
qed

text \<open>
  The text of three words \<open>ab\<close>, \<open>cd\<close>, \<open>e\<close> between a leading space, two tabs, a space
  and a trailing full-width space, with the limits 5 and 7.
\<close>

theorem chunks_rejoin_to_collapsed_text_witness:
  "(5::int) \<le> 7 \<and>
   text_words [32, 97, 98, 9, 9, 99, 100, 32, 101, 12288] = [[97, 98], [99, 100], [101]] \<and>
   iter_space_chunks [32, 97, 98, 9, 9, 99, 100, 32, 101, 12288] 5 7 =
     Some (Inr [[97, 98, 32, 99, 100], [101]]) \<and>
   collapse_ws [32, 97, 98, 9, 9, 99, 100, 32, 101, 12288] = [97, 98, 32, 99, 100, 32, 101] \<and>
   (\<exists>chunks. iter_space_chunks [32, 97, 98, 9, 9, 99, 100, 32, 101, 12288] 5 7 = Some (Inr chunks) \<and>
           join_sp chunks = collapse_ws [32, 97, 98, 9, 9, 99, 100, 32, 101, 12288])"
proof -
  have h1: "(5::int) \<le> 7" by simp
  have tw: "text_words [32, 97, 98, 9, 9, 99, 100, 32, 101, 12288] = [[97, 98], [99, 100], [101]]"
    by (simp add: text_words_def chunk_eval)
  have h2: "\<forall>w\<in>set (text_words [32, 97, 98, 9, 9, 99, 100, 32, 101, 12288]). int (length w) \<le> 7"
    unfolding tw by simp
  have ev: "iter_space_chunks [32, 97, 98, 9, 9, 99, 100, 32, 101, 12288] 5 7 =
     Some (Inr [[97, 98, 32, 99, 100], [101]])"
    by (simp add: chunk_eval)
  have cw: "collapse_ws [32, 97, 98, 9, 9, 99, 100, 32, 101, 12288] = [97, 98, 32, 99, 100, 32, 101]"
    by (simp add: collapse_ws_def py_strip_def is_space_def)
  from chunks_rejoin_to_collapsed_text [OF h1 h2]
  show ?thesis using h1 tw ev cw by blast
qed

text \<open>
  A word longer than the hard limit is cut, and the space-join of the chunks puts spaces
  inside it: \<open>"abcde"\<close> with both limits 2 gives \<open>"ab"\<close>, \<open>"cd"\<close>, \<open>"e"\<close>, which join to
  \<open>"ab cd e"\<close>, while the collapsed text is \<open>"abcde"\<close>.
\<close>

theorem long_word_rejoin_counterexample:
  "(2::int) \<le> 2 \<and>
   iter_space_chunks [97, 98, 99, 100, 101] 2 2 = Some (Inr [[97, 98], [99, 100], [101]]) \<and>
   join_sp [[97, 98], [99, 100], [101]] = [97, 98, 32, 99, 100, 32, 101] \<and>
   collapse_ws [97, 98, 99, 100, 101] = [97, 98, 99, 100, 101] \<and>
   join_sp [[97, 98], [99, 100], [101]] \<noteq> collapse_ws [97, 98, 99, 100, 101]"
proof -
  have ev: "iter_space_chunks [97, 98, 99, 100, 101] 2 2 = Some (Inr [[97, 98], [99, 100], [101]])"
    by (simp add: chunk_eval)
  have cw: "collapse_ws [97, 98, 99, 100, 101] = [97, 98, 99, 100, 101]"
    by (simp add: collapse_ws_def py_strip_def is_space_def)
  show ?thesis unfolding cw using ev by simp
qed

section \<open>The chunker finishes for a positive hard limit\<close>

lemma force_split_total:
  "0 < hard \<Longrightarrow> buf \<noteq> [] \<Longrightarrow> \<exists>st. force_split hard buf c out = Some (Inr st)"
proof (induction "length (last buf)" arbitrary: buf c out rule: less_induct)
  case less
  show ?case
  proof (cases "int (length (last buf)) > hard")
    case False
    then have "force_split hard buf c out = Some (Inr (buf, c, out))"
      using less.prems(2) by (intro force_split_stop) simp_all
    then show ?thesis by blast
  next
    case True
    let ?r = "py_suffix hard (last buf)"
    let ?b = "butlast buf @ [?r]"
    have suf: "?r = drop (nat hard) (last buf)" using less.prems(1) by (simp add: py_suffix_def)
    have rne: "?r \<noteq> []" unfolding suf using True less.prems(1) by simp
    have rec: "force_split hard buf c out =
        force_split hard ?b (joined_len ?b) (out @ [py_prefix hard (last buf)])"
      using force_split_rec [OF less.prems(2) True, of c out] rne by simp
    have "length (last ?b) < length (last buf)"
      unfolding suf using True less.prems(1) by simp
    moreover have "?b \<noteq> []" by simp
    ultimately have "\<exists>st. force_split hard ?b (joined_len ?b)
        (out @ [py_prefix hard (last buf)]) = Some (Inr st)"
      using less.hyps less.prems(1) by blast
    then show ?thesis unfolding rec .
  qed
qed

lemma add_word_cases:
  "add_word max_chars p (buf, c, out) = ([p], int (length p), out @ [join_sp buf]) \<or>
   add_word max_chars p (buf, c, out) = (buf @ [p], c + ((if buf \<noteq> [] then 1 else 0) + int (length p)), out)"
  unfolding add_word_def prod.case Let_def
  by (rule if_split [THEN iffD2]) blast

lemma add_word_nonempty: "fst (add_word max_chars p st) \<noteq> []"
proof -
  obtain buf c out where st: "st = (buf, c, out)" by (cases st) auto
  from add_word_cases [of max_chars p buf c out] show ?thesis unfolding st by auto
qed

lemma chunk_step_total:
  assumes "0 < hard"
  shows "\<exists>st'. chunk_step max_chars hard p st = Some (Inr st')"
proof -
  obtain buf c out where aw: "add_word max_chars p st = (buf, c, out)"
    by (cases "add_word max_chars p st") auto
  with add_word_nonempty [of max_chars p st] have "buf \<noteq> []" by simp
  from force_split_total [OF assms this, of c out] obtain st1 where
    "force_split hard buf c out = Some (Inr st1)" by blast
  then have "chunk_step max_chars hard p st = Some (Inr (failsafe hard st1))"
    unfolding chunk_step_def aw by simp
  then show ?thesis by blast
qed

lemma chunk_loop_total:
  assumes "0 < hard"
  shows "\<exists>st'. chunk_loop max_chars hard parts st = Some (Inr st')"
proof (induction parts arbitrary: st)
  case Nil
  have "chunk_loop max_chars hard [] st = Some (Inr st)" by simp
  then show ?case by blast
next
  case (Cons p parts)
  show ?case
  proof (cases "p = []")
    case True
    then have "chunk_loop max_chars hard (p # parts) st = chunk_loop max_chars hard parts st"
      by simp
    then show ?thesis using Cons [of st] by simp
  next
    case False
    from chunk_step_total [OF assms, of max_chars p st] obtain st1 where
      s1: "chunk_step max_chars hard p st = Some (Inr st1)" by blast
    from Cons [of st1] obtain st2 where
      s2: "chunk_loop max_chars hard parts st1 = Some (Inr st2)" by blast
    have "chunk_loop max_chars hard (p # parts) st = Some (Inr st2)"
      using False by (simp add: s1 s2)
    then show ?thesis by blast
  qed
qed

lemma iter_space_chunks_total:
  assumes "0 < hard"
  shows "\<exists>chunks. iter_space_chunks t max_chars hard = Some (Inr chunks)"
proof (cases "t = []")
  case True
  then show ?thesis by (simp add: iter_space_chunks_def)
next
  case False
  from chunk_loop_total [OF assms, of max_chars "space_split (py_strip t)" "([], 0, [])"]
  obtain st1 where
    "chunk_loop max_chars hard (space_split (py_strip t)) ([], 0, []) = Some (Inr st1)"
    by blast
  then obtain buf c out where
    l: "chunk_loop max_chars hard (space_split (py_strip t)) ([], 0, []) = Some (Inr (buf, c, out))"
    by (cases st1) auto
  have "iter_space_chunks t max_chars hard =
      Some (Inr (if buf \<noteq> [] then out @ [join_sp buf] else out))"
    using False unfolding iter_space_chunks_def l by simp
  then show ?thesis by blast
qed

lemma force_split_error:
  assumes "force_split hard0 buf0 c0 out0 = Some y0"
  shows "y0 \<noteq> Inl RuntimeError"
proof (rule force_split.raw_induct
    [where P = "\<lambda>h b c' o' y'. y' \<noteq> Inl RuntimeError", OF _ assms])
  fix f :: "int \<Rightarrow> ustring list \<Rightarrow> int \<Rightarrow> ustring list \<Rightarrow> (error + chunk_state) option"
  fix hard buf c out y
  assume IH: "\<And>h b c' out' y'. f h b c' out' = Some y' \<Longrightarrow> y' \<noteq> Inl RuntimeError"
  assume step: "(if buf = [] then Some (Inl IndexError)
      else if hard < int (length (last buf))
           then f hard
                 (if py_suffix hard (last buf) \<noteq> []
                  then butlast buf @ [py_suffix hard (last buf)]
                  else butlast buf)
                 (joined_len
                   (if py_suffix hard (last buf) \<noteq> []
                    then butlast buf @ [py_suffix hard (last buf)]
                    else butlast buf))
                 (out @ [py_prefix hard (last buf)])
           else Some (Inr (buf, c, out))) = Some y"
  show "y \<noteq> Inl RuntimeError"
  proof (cases "buf = []")
    case True
    with step show ?thesis by auto
  next
    case False
    show ?thesis
    proof (cases "hard < int (length (last buf))")
      case True
      from step have "f hard
                 (if py_suffix hard (last buf) \<noteq> []
                  then butlast buf @ [py_suffix hard (last buf)]
                  else butlast buf)
                 (joined_len
                   (if py_suffix hard (last buf) \<noteq> []
                    then butlast buf @ [py_suffix hard (last buf)]
                    else butlast buf))
                 (out @ [py_prefix hard (last buf)]) = Some y"
        unfolding if_not_P [OF False] if_P [OF True] .
      then show ?thesis by (rule IH)
    next
      case f2: False
      with step False show ?thesis by auto
    qed
  qed
qed

lemma chunk_step_error: "chunk_step max_chars hard p st \<noteq> Some (Inl RuntimeError)"
proof
  assume a: "chunk_step max_chars hard p st = Some (Inl RuntimeError)"
  obtain buf c out where aw: "add_word max_chars p st = (buf, c, out)"
    by (cases "add_word max_chars p st") auto
  show False
  proof (cases "force_split hard buf c out")
    case None
    with a show False unfolding chunk_step_def aw by simp
  next
    case (Some y)
    from force_split_error [OF Some] have ne: "y \<noteq> Inl RuntimeError" .
    show False
    proof (cases y)
      case (Inl e)
      with a Some ne show False unfolding chunk_step_def aw by simp
    next
      case (Inr st1)
      with a Some show False unfolding chunk_step_def aw by simp
    qed
  qed
qed

lemma chunk_loop_error: "chunk_loop max_chars hard parts st \<noteq> Some (Inl RuntimeError)"
proof (induction parts arbitrary: st)
  case Nil
  then show ?case by simp
next
  case (Cons p parts)
  show ?case
  proof (cases "p = []")
    case True
    then show ?thesis using Cons [of st] by simp
  next
    case False
    show ?thesis
    proof (cases "chunk_step max_chars hard p st")
      case None
      then show ?thesis using False by simp
    next
      case (Some y)
      show ?thesis
      proof (cases y)
        case (Inl e)
        with Some chunk_step_error [of max_chars hard p st] have "e \<noteq> RuntimeError" by auto
        then show ?thesis using False Some Inl by simp
      next
        case (Inr st1)
        then show ?thesis using False Some Cons [of st1] by simp
      qed
    qed
  qed
qed

lemma iter_space_chunks_error: "iter_space_chunks t max_chars hard \<noteq> Some (Inl RuntimeError)"
proof (cases "t = []")
  case True
  then show ?thesis by (simp add: iter_space_chunks_def)
next
  case False
  show ?thesis
  proof (cases "chunk_loop max_chars hard (space_split (py_strip t)) ([], 0, [])")
    case None
    then show ?thesis using False by (simp add: iter_space_chunks_def)
  next
    case (Some y)
    show ?thesis
    proof (cases y)
      case (Inl e)
      with Some chunk_loop_error [of max_chars hard "space_split (py_strip t)" "([], 0, [])"]
      have "e \<noteq> RuntimeError" by auto
      then show ?thesis using False Some Inl by (simp add: iter_space_chunks_def)
    next
      case (Inr st1)
      then show ?thesis using False Some
        by (cases st1) (simp add: iter_space_chunks_def)
    qed
  qed
qed

section \<open>The pipeline\<close>

lemma tokenize_chunks_acc:
  "tokenize_chunks tok sm kp ng chunks toks =
     toks @ concat (map (chunk_tokens tok sm kp ng) chunks)"
proof (induction chunks arbitrary: toks)
  case Nil
  then show ?case by simp
next
  case (Cons c chunks)
  show ?case
  proof (cases "c = []")
    case True
    then show ?thesis using Cons [of toks] by (simp add: chunk_tokens_def)
  next
    case False
    have "tokenize_chunks tok sm kp ng (c # chunks) toks =
          tokenize_chunks tok sm kp ng chunks
            (toks @ List.map_filter (filter_morpheme kp ng) (delivered (tok c sm)))"
      using False by (cases "raised (tok c sm)") simp_all
    then show ?thesis
      using False Cons [of "toks @ List.map_filter (filter_morpheme kp ng) (delivered (tok c sm))"]
      by (simp add: chunk_tokens_def)
  qed
qed

lemma base_tokenize_available:
  assumes "or_default tok (TOK g) = Some tok'"
    and "or_default split_mode (SPLIT_MODE g) = Some sm'"
    and "iter_space_chunks (clean_text nfkc text) max_chars hard = Some (Inr chunks)"
  shows "base_tokenize g nfkc text keep_pos ng_words max_chars hard tok split_mode =
           Some (Inr (concat (map (chunk_tokens tok' sm' (keep_pos_set keep_pos)
                                     (ng_words_set ng_words)) chunks)))"
  unfolding base_tokenize_def assms by (simp add: tokenize_chunks_acc)

lemma noun_token:
  "c \<noteq> [] \<Longrightarrow>
   List.map_filter (filter_morpheme (keep_pos_set (ArgBool True)) (ng_words_set (ArgBool False)))
     [\<lparr>surface = c, dictionary_form = c, part_of_speech = (POS_NOUN, [], [], [], [], [])\<rparr>] = [c]"
  by (simp add: filter_morpheme_def
        normalize_baseform_def pos0_def keep_pos_set_def ng_words_set_def DEFAULT_KEEP_POS_def
        POS_NOUN_def POS_VERB_def POS_ADJECTIVE_def)

lemma stub_tokens:
  "c \<noteq> [] \<Longrightarrow> c \<noteq> bad \<Longrightarrow>
     chunk_tokens (stub_analyzer bad) sm (keep_pos_set (ArgBool True))
       (ng_words_set (ArgBool False)) c = [c]"
  by (simp add: chunk_tokens_def stub_analyzer_def noun_token del: List.map_filter_simps)

lemma stub_tokens_bad:
  "chunk_tokens (stub_analyzer bad) sm kp ng bad = []"
  by (simp add: chunk_tokens_def stub_analyzer_def)

lemma faltering_tokens:
  "c \<noteq> [] \<Longrightarrow>
     chunk_tokens (faltering_analyzer bad) sm (keep_pos_set (ArgBool True))
       (ng_words_set (ArgBool False)) c = [c]"
  by (simp add: chunk_tokens_def faltering_analyzer_def noun_token del: List.map_filter_simps)

lemma clean_ascii: "clean_text nfkc_fragment [97, 98, 32, 99, 100, 32, 101, 102] =
    [97, 98, 32, 99, 100, 32, 101, 102]"
  by (simp add: clean_text_def NOISE_CHARS_def)

lemma three_chunks:
  "iter_space_chunks (clean_text nfkc_fragment [97, 98, 32, 99, 100, 32, 101, 102]) 2 2 =
     Some (Inr [[97, 98], [99, 100], [101, 102]])"
  unfolding clean_ascii by (simp add: chunk_eval)

lemma pipeline_zero_limit:
  "base_tokenize \<lparr>TOK = None, SPLIT_MODE = Some SplitC\<rparr> nfkc_fragment [97]
     (ArgBool True) (ArgBool False) 0 0 (Some (stub_analyzer [])) None = None"
proof -
  have c: "clean_text nfkc_fragment [97] = [97]" by (simp add: clean_text_def NOISE_CHARS_def)
  have "iter_space_chunks [97] 0 0 = None"
    by (simp add: iter_space_chunks_def py_strip_def space_split_last is_space_def chunk_step_def
      add_word_def force_split_diverges)
  then show ?thesis by (simp add: base_tokenize_def or_default_def c)
qed

text \<open>
  Claim C3, as the code has it.  With an analyzer and a split mode available and a positive
  hard limit, the chunker finishes and \<open>base_tokenize\<close> raises nothing, whatever the
  analyzer raises on whichever chunks: it returns, in chunk order, the accepted tokens of
  the morphemes that the analysis of each chunk delivers, in their order.  A chunk whose
  analysis delivers nothing, as when the call of the analyzer raises, contributes nothing:
  the result is the tokens of the chunks before it followed by those of the chunks after
  it (with three chunks and such a failure on the second, the tokens of chunk 1 followed
  by the tokens of chunk 3).  The tokens of the morphemes delivered before a later
  exception are part of the result.
\<close>

theorem tokens_survive_analyzer_failures:
  assumes "or_default tok (TOK g) = Some tok'"
    and "or_default split_mode (SPLIT_MODE g) = Some sm'"
    and "0 < hard_max_chars"
  shows "\<exists>chunks.
           iter_space_chunks (clean_text nfkc text) max_chars hard_max_chars = Some (Inr chunks) \<and>
           base_tokenize g nfkc text keep_pos ng_words max_chars hard_max_chars tok split_mode =
             Some (Inr (concat (map (\<lambda>c. if c = [] then []
                                  else List.map_filter
                                         (filter_morpheme (keep_pos_set keep_pos)
                                            (ng_words_set ng_words))
                                         (delivered (tok' c sm'))) chunks))) \<and>
           (\<forall>before chunk after.
              chunks = before @ chunk # after \<and> delivered (tok' chunk sm') = [] \<longrightarrow>
              base_tokenize g nfkc text keep_pos ng_words max_chars hard_max_chars tok split_mode =
                Some (Inr (concat (map (chunk_tokens tok' sm' (keep_pos_set keep_pos)
                                          (ng_words_set ng_words)) before) @
                           concat (map (chunk_tokens tok' sm' (keep_pos_set keep_pos)
                                          (ng_words_set ng_words)) after))))"
proof -
  let ?ct = "chunk_tokens tok' sm' (keep_pos_set keep_pos) (ng_words_set ng_words)"
  from iter_space_chunks_total [OF assms(3), of "clean_text nfkc text" max_chars]
  obtain chunks where
    c: "iter_space_chunks (clean_text nfkc text) max_chars hard_max_chars = Some (Inr chunks)"
    by blast
  have b: "base_tokenize g nfkc text keep_pos ng_words max_chars hard_max_chars tok split_mode =
      Some (Inr (concat (map ?ct chunks)))"
    by (rule base_tokenize_available [OF assms(1,2) c])
  have ct: "?ct = (\<lambda>c. if c = [] then []
                                  else List.map_filter
                                         (filter_morpheme (keep_pos_set keep_pos)
                                            (ng_words_set ng_words))
                                         (delivered (tok' c sm')))"
    by (rule ext) (simp add: chunk_tokens_def)
  have skip: "\<forall>before chunk after.
              chunks = before @ chunk # after \<and> delivered (tok' chunk sm') = [] \<longrightarrow>
              base_tokenize g nfkc text keep_pos ng_words max_chars hard_max_chars tok split_mode =
                Some (Inr (concat (map ?ct before) @ concat (map ?ct after)))"
  proof (intro allI impI)
    fix before chunk after
    assume a: "chunks = before @ chunk # after \<and> delivered (tok' chunk sm') = []"
    then have "?ct chunk = []" by (simp add: chunk_tokens_def)
    with a show "base_tokenize g nfkc text keep_pos ng_words max_chars hard_max_chars tok
        split_mode = Some (Inr (concat (map ?ct before) @ concat (map ?ct after)))"
      unfolding b by simp
  qed
  from b have b': "base_tokenize g nfkc text keep_pos ng_words max_chars hard_max_chars tok
      split_mode =
      Some (Inr (concat (map (\<lambda>c. if c = [] then []
                                  else List.map_filter
                                         (filter_morpheme (keep_pos_set keep_pos)
                                            (ng_words_set ng_words))
                                         (delivered (tok' c sm'))) chunks)))"
    unfolding ct .
  show ?thesis
    by (rule exI [of _ chunks]) (intro conjI c b' skip)
qed

text \<open>
  The text \<open>"ab cd ef"\<close> with both limits 2 gives the chunks \<open>"ab"\<close>, \<open>"cd"\<close>, \<open>"ef"\<close>.  The
  call of the analyzer raises on \<open>"cd"\<close>, and the tokens are \<open>"ab"\<close>, \<open>"ef"\<close>.
\<close>

theorem tokens_survive_analyzer_failures_witness:
  "or_default (Some (stub_analyzer [99, 100])) (TOK \<lparr>TOK = None, SPLIT_MODE = Some SplitC\<rparr>) =
     Some (stub_analyzer [99, 100]) \<and>
   or_default None (SPLIT_MODE \<lparr>TOK = None, SPLIT_MODE = Some SplitC\<rparr>) = Some SplitC \<and>
   (0::int) < 2 \<and>
   iter_space_chunks (clean_text nfkc_fragment [97, 98, 32, 99, 100, 32, 101, 102]) 2 2 =
     Some (Inr ([[97, 98]] @ [99, 100] # [[101, 102]])) \<and>
   delivered (stub_analyzer [99, 100] [99, 100] SplitC) = [] \<and>
   raised (stub_analyzer [99, 100] [99, 100] SplitC) = Some AnalyzerError \<and>
   base_tokenize \<lparr>TOK = None, SPLIT_MODE = Some SplitC\<rparr> nfkc_fragment
       [97, 98, 32, 99, 100, 32, 101, 102] (ArgBool True) (ArgBool False) 2 2
       (Some (stub_analyzer [99, 100])) None =
     Some (Inr [[97, 98], [101, 102]])"
proof -
  let ?g = "\<lparr>TOK = None, SPLIT_MODE = Some SplitC\<rparr>"
  have h1: "or_default (Some (stub_analyzer [99, 100])) (TOK ?g) = Some (stub_analyzer [99, 100])"
    by (simp add: or_default_def)
  have h2: "or_default None (SPLIT_MODE ?g) = Some SplitC" by (simp add: or_default_def)
  have h3: "(0::int) < 2" by simp
  have d: "delivered (stub_analyzer [99, 100] [99, 100] SplitC) = []"
    and r: "raised (stub_analyzer [99, 100] [99, 100] SplitC) = Some AnalyzerError"
    by (simp_all add: stub_analyzer_def)
  have sp: "[[97, 98], [99, 100], [101, 102]] = [[97, 98]] @ [99, 100] # [[101, 102 :: nat]]"
    by simp
  from tokens_survive_analyzer_failures [OF h1 h2 h3, of nfkc_fragment
      "[97, 98, 32, 99, 100, 32, 101, 102]" 2 "ArgBool True" "ArgBool False"]
  obtain chunks where
    c: "iter_space_chunks (clean_text nfkc_fragment [97, 98, 32, 99, 100, 32, 101, 102]) 2 2 =
          Some (Inr chunks)"
    and skip: "\<forall>before chunk after.
       chunks = before @ chunk # after \<and> delivered (stub_analyzer [99, 100] chunk SplitC) = [] \<longrightarrow>
       base_tokenize ?g nfkc_fragment [97, 98, 32, 99, 100, 32, 101, 102]
         (ArgBool True) (ArgBool False) 2 2 (Some (stub_analyzer [99, 100])) None =
         Some (Inr (concat (map (chunk_tokens (stub_analyzer [99, 100]) SplitC
                                   (keep_pos_set (ArgBool True)) (ng_words_set (ArgBool False)))
                              before) @
                    concat (map (chunk_tokens (stub_analyzer [99, 100]) SplitC
                                   (keep_pos_set (ArgBool True)) (ng_words_set (ArgBool False)))
                              after)))"
    by blast
  from c have cs: "chunks = [[97, 98]] @ [99, 100] # [[101, 102]]"
    unfolding three_chunks by simp
  from skip cs d
  have "base_tokenize ?g nfkc_fragment [97, 98, 32, 99, 100, 32, 101, 102]
         (ArgBool True) (ArgBool False) 2 2 (Some (stub_analyzer [99, 100])) None =
         Some (Inr (concat (map (chunk_tokens (stub_analyzer [99, 100]) SplitC
                                   (keep_pos_set (ArgBool True)) (ng_words_set (ArgBool False)))
                              [[97, 98]]) @
                    concat (map (chunk_tokens (stub_analyzer [99, 100]) SplitC
                                   (keep_pos_set (ArgBool True)) (ng_words_set (ArgBool False)))
                              [[101, 102]])))"
    by blast
  then have res: "base_tokenize ?g nfkc_fragment [97, 98, 32, 99, 100, 32, 101, 102]
         (ArgBool True) (ArgBool False) 2 2 (Some (stub_analyzer [99, 100])) None =
       Some (Inr [[97, 98], [101, 102]])"
    by (simp add: stub_tokens)
  have h4: "iter_space_chunks (clean_text nfkc_fragment [97, 98, 32, 99, 100, 32, 101, 102]) 2 2 =
     Some (Inr ([[97, 98]] @ [99, 100] # [[101, 102]]))"
    unfolding three_chunks by simp
  from h1 h2 h3 h4 d r res show ?thesis by blast
qed

text \<open>
  The claim as stated has the failed chunk contribute nothing.  On the same text, let the
  analysis of \<open>"cd"\<close> deliver its noun and raise after it: the token \<open>"cd"\<close> is already in
  \<open>toks\<close> when the exception comes, and the result is \<open>"ab"\<close>, \<open>"cd"\<close>, \<open>"ef"\<close>, not the tokens
  of chunks 1 and 3.  And with the hard limit 0 the call does not return at all on the text
  \<open>"a"\<close>, whatever the analyzer does.
\<close>

theorem partial_tokens_kept_counterexample:
  "raised (faltering_analyzer [99, 100] [99, 100] SplitC) = Some AnalyzerError \<and>
   iter_space_chunks (clean_text nfkc_fragment [97, 98, 32, 99, 100, 32, 101, 102]) 2 2 =
     Some (Inr [[97, 98], [99, 100], [101, 102]]) \<and>
   base_tokenize \<lparr>TOK = None, SPLIT_MODE = Some SplitC\<rparr> nfkc_fragment
       [97, 98, 32, 99, 100, 32, 101, 102] (ArgBool True) (ArgBool False) 2 2
       (Some (faltering_analyzer [99, 100])) None =
     Some (Inr [[97, 98], [99, 100], [101, 102]]) \<and>
   base_tokenize \<lparr>TOK = None, SPLIT_MODE = Some SplitC\<rparr> nfkc_fragment
       [97, 98, 32, 99, 100, 32, 101, 102] (ArgBool True) (ArgBool False) 2 2
       (Some (faltering_analyzer [99, 100])) None \<noteq>
     Some (Inr [[97, 98], [101, 102]]) \<and>
   base_tokenize \<lparr>TOK = None, SPLIT_MODE = Some SplitC\<rparr> nfkc_fragment [97]
     (ArgBool True) (ArgBool False) 0 0 (Some (stub_analyzer [])) None = None"
proof -
  have t: "or_default (Some (faltering_analyzer [99, 100]))
      (TOK \<lparr>TOK = None, SPLIT_MODE = Some SplitC\<rparr>) = Some (faltering_analyzer [99, 100])"
    by (simp add: or_default_def)
  have m: "or_default None (SPLIT_MODE \<lparr>TOK = None, SPLIT_MODE = Some SplitC\<rparr>) = Some SplitC"
    by (simp add: or_default_def)
  have r: "raised (faltering_analyzer [99, 100] [99, 100] SplitC) = Some AnalyzerError"
    by (simp add: faltering_analyzer_def)
  have b: "base_tokenize \<lparr>TOK = None, SPLIT_MODE = Some SplitC\<rparr> nfkc_fragment
       [97, 98, 32, 99, 100, 32, 101, 102] (ArgBool True) (ArgBool False) 2 2
       (Some (faltering_analyzer [99, 100])) None =
     Some (Inr [[97, 98], [99, 100], [101, 102]])"
    unfolding base_tokenize_available [OF t m three_chunks] by (simp add: faltering_tokens)
  show ?thesis unfolding b using r three_chunks pipeline_zero_limit by simp
qed

section \<open>Configuration errors\<close>

text \<open>
  Claim C4, as the code has it.  \<open>base_tokenize\<close> never compares \<open>max_chars_per_chunk\<close>
  with \<open>hard_max_chars\<close>.  Its only configuration error is the \<open>RuntimeError\<close> for a
  missing analyzer or split mode (neither passed nor set in the module); it is raised
  exactly then, whatever the text and the limits, so before any normalization, chunking
  or analysis, and nothing catches it.  With both available and a positive hard limit the
  call returns a token list for every soft limit, also one above the hard limit.
\<close>

theorem no_limit_check_in_pipeline:
  "(base_tokenize g nfkc text keep_pos ng_words max_chars hard_max_chars tok split_mode =
      Some (Inl RuntimeError) \<longleftrightarrow>
    or_default tok (TOK g) = None \<or> or_default split_mode (SPLIT_MODE g) = None) \<and>
   (or_default tok (TOK g) \<noteq> None \<and> or_default split_mode (SPLIT_MODE g) \<noteq> None \<and>
    0 < hard_max_chars \<longrightarrow>
    (\<exists>toks. base_tokenize g nfkc text keep_pos ng_words max_chars hard_max_chars tok split_mode =
       Some (Inr toks)))"
proof (intro conjI impI)
  show "base_tokenize g nfkc text keep_pos ng_words max_chars hard_max_chars tok split_mode =
      Some (Inl RuntimeError) \<longleftrightarrow>
    or_default tok (TOK g) = None \<or> or_default split_mode (SPLIT_MODE g) = None"
  proof (cases "or_default tok (TOK g)")
    case None
    then show ?thesis by (simp add: base_tokenize_def)
  next
    case t: (Some tok')
    show ?thesis
    proof (cases "or_default split_mode (SPLIT_MODE g)")
      case None
      then show ?thesis by (simp add: base_tokenize_def t)
    next
      case m: (Some sm')
      have "base_tokenize g nfkc text keep_pos ng_words max_chars hard_max_chars tok split_mode \<noteq>
          Some (Inl RuntimeError)"
        using iter_space_chunks_error [of "clean_text nfkc text" max_chars hard_max_chars]
        unfolding base_tokenize_def t m
        by (auto split: option.splits sum.splits)
      then show ?thesis by (simp add: t m)
    qed
  qed
next
  assume a: "or_default tok (TOK g) \<noteq> None \<and> or_default split_mode (SPLIT_MODE g) \<noteq> None \<and>
    0 < hard_max_chars"
  then obtain tok' sm' where t: "or_default tok (TOK g) = Some tok'"
    and m: "or_default split_mode (SPLIT_MODE g) = Some sm'" by auto
  from a have pos: "0 < hard_max_chars" by simp
  from iter_space_chunks_total [OF pos, of "clean_text nfkc text" max_chars] obtain chunks where
    c: "iter_space_chunks (clean_text nfkc text) max_chars hard_max_chars = Some (Inr chunks)"
    by blast
  from base_tokenize_available [OF t m c]
  show "\<exists>toks. base_tokenize g nfkc text keep_pos ng_words max_chars hard_max_chars tok split_mode =
       Some (Inr toks)" by blast
qed

text \<open>
  The text \<open>"ab cd"\<close> with the soft limit 5 above the hard limit 3: the fail-safe of the
  chunker flushes \<open>"ab"\<close>, the last chunk is \<open>"cd"\<close>, and the call returns both tokens.
\<close>

lemma clean_ascii2: "clean_text nfkc_fragment [97, 98, 32, 99, 100] = [97, 98, 32, 99, 100]"
  by (simp add: clean_text_def NOISE_CHARS_def)

lemma run_over_limit:
  "base_tokenize \<lparr>TOK = None, SPLIT_MODE = Some SplitC\<rparr> nfkc_fragment
       [97, 98, 32, 99, 100] (ArgBool True) (ArgBool False) 5 3
       (Some (stub_analyzer [])) None = Some (Inr [[97, 98], [99, 100]])"
proof -
  have c: "iter_space_chunks (clean_text nfkc_fragment [97, 98, 32, 99, 100]) 5 3 =
      Some (Inr [[97, 98], [99, 100]])"
    unfolding clean_ascii2 by (simp add: chunk_eval)
  have t: "or_default (Some (stub_analyzer [])) (TOK \<lparr>TOK = None, SPLIT_MODE = Some SplitC\<rparr>) =
      Some (stub_analyzer [])" by (simp add: or_default_def)
  have m: "or_default None (SPLIT_MODE \<lparr>TOK = None, SPLIT_MODE = Some SplitC\<rparr>) = Some SplitC"
    by (simp add: or_default_def)
  show ?thesis unfolding base_tokenize_available [OF t m c] by (simp add: stub_tokens)
qed

theorem no_limit_check_in_pipeline_witness:
  "or_default (Some (stub_analyzer [])) (TOK \<lparr>TOK = None, SPLIT_MODE = Some SplitC\<rparr>) \<noteq> None \<and>
   or_default None (SPLIT_MODE \<lparr>TOK = None, SPLIT_MODE = Some SplitC\<rparr>) \<noteq> None \<and>
   (0::int) < 3 \<and>
   (\<exists>toks. base_tokenize \<lparr>TOK = None, SPLIT_MODE = Some SplitC\<rparr> nfkc_fragment
       [97, 98, 32, 99, 100] (ArgBool True) (ArgBool False) 5 3
       (Some (stub_analyzer [])) None = Some (Inr toks)) \<and>
   base_tokenize \<lparr>TOK = None, SPLIT_MODE = None\<rparr> nfkc_fragment
       [97, 98, 32, 99, 100] (ArgBool True) (ArgBool False) 5 3
       (Some (stub_analyzer [])) None = Some (Inl RuntimeError)"
proof -
  let ?g = "\<lparr>TOK = None, SPLIT_MODE = Some SplitC\<rparr>"
  let ?gn = "\<lparr>TOK = None, SPLIT_MODE = None\<rparr>"
  have t: "or_default (Some (stub_analyzer [])) (TOK ?g) \<noteq> None"
    by (simp add: or_default_def)
  have m: "or_default (None :: split_mode option) (SPLIT_MODE ?g) \<noteq> None"
    by (simp add: or_default_def)
  have m0: "or_default (None :: split_mode option) (SPLIT_MODE ?gn) = None"
    by (simp add: or_default_def)
  have p: "(0::int) < 3" by simp
  from no_limit_check_in_pipeline [of ?g nfkc_fragment "[97, 98, 32, 99, 100]"
      "ArgBool True" "ArgBool False" 5 3 "Some (stub_analyzer [])" None] t m p
  have a: "\<exists>toks. base_tokenize ?g nfkc_fragment
       [97, 98, 32, 99, 100] (ArgBool True) (ArgBool False) 5 3
       (Some (stub_analyzer [])) None = Some (Inr toks)" by blast
  from no_limit_check_in_pipeline [of ?gn nfkc_fragment "[97, 98, 32, 99, 100]"
      "ArgBool True" "ArgBool False" 5 3 "Some (stub_analyzer [])" None] m0
  have b: "base_tokenize ?gn nfkc_fragment
       [97, 98, 32, 99, 100] (ArgBool True) (ArgBool False) 5 3
       (Some (stub_analyzer [])) None = Some (Inl RuntimeError)" by blast
  from t m p a b show ?thesis by blast
qed

text \<open>
  The claim as stated expects a configuration error for \<open>max_chars > hard_max_chars\<close>.
  The run above has the soft limit 5 and the hard limit 3 and returns its tokens.
\<close>

theorem limits_not_checked_counterexample:
  "(5::int) > 3 \<and>
   base_tokenize \<lparr>TOK = None, SPLIT_MODE = Some SplitC\<rparr> nfkc_fragment
       [97, 98, 32, 99, 100] (ArgBool True) (ArgBool False) 5 3
       (Some (stub_analyzer [])) None = Some (Inr [[97, 98], [99, 100]]) \<and>
   base_tokenize \<lparr>TOK = None, SPLIT_MODE = Some SplitC\<rparr> nfkc_fragment
       [97, 98, 32, 99, 100] (ArgBool True) (ArgBool False) 5 3
       (Some (stub_analyzer [])) None \<noteq> Some (Inl RuntimeError)"
  unfolding run_over_limit by simp

section \<open>The normalizer\<close>

lemma clean_text_filter: "clean_text nfkc x = filter (\<lambda>c. c \<notin> NOISE_CHARS) (nfkc x)"
  by (simp add: clean_text_def NOISE_CHARS_def)

text \<open>
  Claim C7, as the code has it.  The output of \<open>_clean_text\<close> holds no noise character,
  and normalizing it again changes nothing whenever NFKC leaves that output unchanged.
\<close>

theorem normalize_idempotent_on_stable_output:
  "set (clean_text nfkc x) \<inter> NOISE_CHARS = {} \<and>
   (nfkc (clean_text nfkc x) = clean_text nfkc x \<longrightarrow>
    clean_text nfkc (clean_text nfkc x) = clean_text nfkc x)"
proof (intro conjI impI)
  show "set (clean_text nfkc x) \<inter> NOISE_CHARS = {}"
    unfolding clean_text_filter by auto
next
  assume st: "nfkc (clean_text nfkc x) = clean_text nfkc x"
  have "clean_text nfkc (clean_text nfkc x) =
        filter (\<lambda>c. c \<notin> NOISE_CHARS) (nfkc (clean_text nfkc x))"
    by (rule clean_text_filter)
  also have "\<dots> = filter (\<lambda>c. c \<notin> NOISE_CHARS) (clean_text nfkc x)" unfolding st ..
  also have "\<dots> = clean_text nfkc x" unfolding clean_text_filter by simp
  finally show "clean_text nfkc (clean_text nfkc x) = clean_text nfkc x" .
qed

text \<open>
  The text \<open>"a.b"\<close>: its normalized form \<open>"ab"\<close> is in NFKC.
\<close>

theorem normalize_idempotent_on_stable_output_witness:
  "clean_text nfkc_fragment [97, 46, 98] = [97, 98] \<and>
   nfkc_fragment (clean_text nfkc_fragment [97, 46, 98]) = clean_text nfkc_fragment [97, 46, 98] \<and>
   clean_text nfkc_fragment (clean_text nfkc_fragment [97, 46, 98]) =
     clean_text nfkc_fragment [97, 46, 98]"
proof -
  have c: "clean_text nfkc_fragment [97, 46, 98] = [97, 98]"
    by (simp add: clean_text_def NOISE_CHARS_def)
  have st: "nfkc_fragment (clean_text nfkc_fragment [97, 46, 98]) =
      clean_text nfkc_fragment [97, 46, 98]"
    unfolding c by simp
  from normalize_idempotent_on_stable_output [of nfkc_fragment "[97, 46, 98]"] st
  have "clean_text nfkc_fragment (clean_text nfkc_fragment [97, 46, 98]) =
     clean_text nfkc_fragment [97, 46, 98]" by blast
  with c st show ?thesis by blast
qed

text \<open>
  Deleting a noise character can bring a base letter and a combining mark together, and
  the result is no longer in NFKC.  For \<open>a\<close>, full stop, U+0301: NFKC changes nothing (the
  accent follows the full stop), the full stop is deleted, and the result is \<open>a\<close>, U+0301.
  Normalizing that composes the two into U+00E1.
\<close>

theorem normalize_not_idempotent_counterexample:
  "clean_text nfkc_fragment [97, 46, 769] = [97, 769] \<and>
   clean_text nfkc_fragment (clean_text nfkc_fragment [97, 46, 769]) = [225] \<and>
   clean_text nfkc_fragment (clean_text nfkc_fragment [97, 46, 769]) \<noteq>
     clean_text nfkc_fragment [97, 46, 769]"
proof -
  have c: "clean_text nfkc_fragment [97, 46, 769] = [97, 769]"
    by (simp add: clean_text_def NOISE_CHARS_def)
  have d: "clean_text nfkc_fragment [97, 769] = [225]"
    by (simp add: clean_text_def NOISE_CHARS_def)
  show ?thesis unfolding c d by simp
qed

section \<open>The token filter\<close>

text \<open>
  Claim C8.  The candidate token of a morpheme is its dictionary form when the primary
  part-of-speech tag is verb or adjective and its surface form otherwise.  A verb with the
  surface U+98DF U+3079 U+305F and the dictionary form U+98DF U+3079 U+308B has the
  dictionary form as its candidate, and the filter with the default arguments emits it.
\<close>

theorem candidate_token_by_part_of_speech:
  "normalize_baseform m =
     (if pos0 m = POS_VERB \<or> pos0 m = POS_ADJECTIVE then dictionary_form m else surface m) \<and>
   normalize_baseform \<lparr>surface = [39135, 12409, 12383], dictionary_form = [39135, 12409, 12427],
       part_of_speech = (POS_VERB, p1, p2, p3, p4, p5)\<rparr> = [39135, 12409, 12427] \<and>
   filter_morpheme (keep_pos_set (ArgBool True)) (ng_words_set (ArgBool False))
     \<lparr>surface = [39135, 12409, 12383], dictionary_form = [39135, 12409, 12427],
       part_of_speech = (POS_VERB, p1, p2, p3, p4, p5)\<rparr> = Some [39135, 12409, 12427]"
  by (simp add: normalize_baseform_def pos0_def filter_morpheme_def keep_pos_set_def
      ng_words_set_def DEFAULT_KEEP_POS_def)

text \<open>
  Claim C9.  The loop body rejects a morpheme exactly when the allow-list is non-empty and
  does not hold the primary tag, or the candidate token is empty, or the NG-word set is
  non-empty and holds the candidate; otherwise it emits the candidate unchanged.  With
  both sets empty only the empty candidate is rejected, and \<open>False\<close> for either argument
  gives the empty set.
\<close>

theorem filter_rejects_exactly:
  "filter_morpheme keep_pos ng_words m =
     (if (keep_pos \<noteq> {} \<and> pos0 m \<notin> keep_pos) \<or> normalize_baseform m = [] \<or>
         (ng_words \<noteq> {} \<and> normalize_baseform m \<in> ng_words)
      then None else Some (normalize_baseform m)) \<and>
   filter_morpheme {} {} m =
     (if normalize_baseform m = [] then None else Some (normalize_baseform m)) \<and>
   keep_pos_set (ArgBool False) = {} \<and> ng_words_set (ArgBool False) = {}"
  by (auto simp: filter_morpheme_def Let_def keep_pos_set_def ng_words_set_def)

section \<open>Whitespace-only texts\<close>

text \<open>
  Claim C10.  For a text of whitespace characters only (the empty text included) the
  chunker yields no chunk, whatever the limits; and \<open>base_tokenize\<close>, with an analyzer and
  a split mode available, returns the empty list, NFKC mapping the text to whitespace
  only (as it does for every string of the whitespace characters above).
\<close>

theorem whitespace_only_text_gives_nothing:
  assumes "\<forall>c\<in>set text. is_space c"
  shows "iter_space_chunks text max_chars hard_max_chars = Some (Inr []) \<and>
         ((\<forall>c\<in>set (nfkc text). is_space c) \<and>
          or_default tok (TOK g) \<noteq> None \<and> or_default split_mode (SPLIT_MODE g) \<noteq> None \<longrightarrow>
          base_tokenize g nfkc text keep_pos ng_words max_chars hard_max_chars tok split_mode =
            Some (Inr []))"
proof (intro conjI impI)
  show "iter_space_chunks text max_chars hard_max_chars = Some (Inr [])"
    using assms by (intro no_words_no_chunks whitespace_no_words)
next
  assume a: "(\<forall>c\<in>set (nfkc text). is_space c) \<and>
          or_default tok (TOK g) \<noteq> None \<and> or_default split_mode (SPLIT_MODE g) \<noteq> None"
  then obtain tok' sm' where t: "or_default tok (TOK g) = Some tok'"
    and m: "or_default split_mode (SPLIT_MODE g) = Some sm'" by auto
  from a have "\<forall>c\<in>set (clean_text nfkc text). is_space c"
    unfolding clean_text_filter by simp
  then have c: "iter_space_chunks (clean_text nfkc text) max_chars hard_max_chars = Some (Inr [])"
    by (intro no_words_no_chunks whitespace_no_words)
  show "base_tokenize g nfkc text keep_pos ng_words max_chars hard_max_chars tok split_mode =
            Some (Inr [])"
    unfolding base_tokenize_available [OF t m c] by simp
qed

text \<open>
  The empty text, the text space, tab, newline, and that text followed by a full-width
  space (the fragment of NFKC is not used on the last one).
\<close>

theorem whitespace_only_text_gives_nothing_witness:
  "is_space 32 \<and> is_space 9 \<and> is_space 10 \<and> is_space 12288 \<and>
   nfkc_fragment [32, 9, 10] = [32, 9, 10] \<and>
   iter_space_chunks [] 2000 4000 = Some (Inr []) \<and>
   iter_space_chunks [32, 9, 10, 12288] 2000 4000 = Some (Inr []) \<and>
   base_tokenize \<lparr>TOK = None, SPLIT_MODE = Some SplitC\<rparr> nfkc_fragment [32, 9, 10]
     (ArgBool True) (ArgBool False) 2000 4000 (Some (stub_analyzer [])) None = Some (Inr []) \<and>
   base_tokenize \<lparr>TOK = None, SPLIT_MODE = Some SplitC\<rparr> nfkc_fragment []
     (ArgBool True) (ArgBool False) 2000 4000 (Some (stub_analyzer [])) None = Some (Inr [])"
proof -
  let ?g = "\<lparr>TOK = None, SPLIT_MODE = Some SplitC\<rparr>"
  have s: "is_space 32" "is_space 9" "is_space 10" "is_space 12288"
    by (simp_all add: is_space_def)
  have n: "nfkc_fragment [32, 9, 10] = [32, 9, 10]" "nfkc_fragment [] = []" by simp_all
  have t: "or_default (Some (stub_analyzer [])) (TOK ?g) \<noteq> None"
    by (simp add: or_default_def)
  have m: "or_default (None :: split_mode option) (SPLIT_MODE ?g) \<noteq> None"
    by (simp add: or_default_def)
  have w0: "\<forall>c\<in>set ([]::ustring). is_space c" by simp
  have w3: "\<forall>c\<in>set [32, 9, 10]. is_space c" using s by simp
  have w4: "\<forall>c\<in>set [32, 9, 10, 12288]. is_space c" using s by simp
  have n3: "\<forall>c\<in>set (nfkc_fragment [32, 9, 10]). is_space c" unfolding n using s by simp
  have n0: "\<forall>c\<in>set (nfkc_fragment []). is_space c" by simp
  from whitespace_only_text_gives_nothing [OF w0, of 2000 4000 nfkc_fragment
      "Some (stub_analyzer [])" ?g None "ArgBool True" "ArgBool False"] n0 t m
  have r0: "iter_space_chunks [] 2000 4000 = Some (Inr [])"
    "base_tokenize ?g nfkc_fragment [] (ArgBool True) (ArgBool False) 2000 4000
       (Some (stub_analyzer [])) None = Some (Inr [])" by blast+
  from whitespace_only_text_gives_nothing [OF w3, of 2000 4000 nfkc_fragment
      "Some (stub_analyzer [])" ?g None "ArgBool True" "ArgBool False"] n3 t m
  have r3: "base_tokenize ?g nfkc_fragment [32, 9, 10] (ArgBool True) (ArgBool False) 2000 4000
       (Some (stub_analyzer [])) None = Some (Inr [])" by blast
  from whitespace_only_text_gives_nothing [OF w4, of 2000 4000]
  have r4: "iter_space_chunks [32, 9, 10, 12288] 2000 4000 = Some (Inr [])" by blast
  from s n(1) r0 r3 r4 show ?thesis by blast
qed

end
